theory Spec2Isabelle
  imports Main "HOL-Library.Word" "HOL-Library.Monad_Syntax"
begin

unbundle bit_operations_syntax

section \<open>Bytes and buffer iterators\<close>

type_synonym byte = "8 word"

text \<open>
  Modelled from the spec: the buffer iterator \<open>MariaDBBackendConnection::Iter\<close>
  (\<open>mxs::Buffer::iterator\<close>) is declared outside the sources at hand.  An iterator
  is represented by the bytes from its position to the end of the buffer; the end
  iterator is the empty list.  Two iterators into the same buffer are equal when
  they have the same number of bytes left.  Dereferencing or incrementing the end
  iterator and advancing beyond the end of the buffer are outside the iterator's
  contract: the model returns \<open>None\<close> there.
\<close>

type_synonym Iter = "byte list"

text \<open>\<open>*it++\<close>\<close>

definition deref_inc :: "Iter \<Rightarrow> (byte \<times> Iter) option" where
  "deref_inc it = (case it of [] \<Rightarrow> None | b # it' \<Rightarrow> Some (b, it'))"

text \<open>\<open>*it\<close>\<close>

definition deref :: "Iter \<Rightarrow> byte option" where
  "deref it = (case it of [] \<Rightarrow> None | b # _ \<Rightarrow> Some b)"

text \<open>\<open>++it\<close>\<close>

definition inc :: "Iter \<Rightarrow> Iter option" where
  "inc it = (case it of [] \<Rightarrow> None | _ # it' \<Rightarrow> Some it')"

text \<open>\<open>it.advance(n)\<close> and \<open>std::advance(it, n)\<close>\<close>

definition advance :: "nat \<Rightarrow> Iter \<Rightarrow> Iter option" where
  "advance n it = (if n \<le> length it then Some (drop n it) else None)"

text \<open>\<open>std::string(start, it)\<close>: the bytes between two iterators of one buffer.\<close>

definition between :: "Iter \<Rightarrow> Iter \<Rightarrow> byte list option" where
  "between start it =
     (if length it \<le> length start then Some (take (length start - length it) start)
      else None)"

section \<open>Length-encoded integers and strings\<close>

definition skip_encoded_int :: "Iter \<Rightarrow> Iter option" where
  "skip_encoded_int it =
     do {
       b \<leftarrow> deref it;
       if b = 0xfc then advance 3 it
       else if b = 0xfd then advance 4 it
       else if b = 0xfe then advance 9 it
       else inc it
     }"

text \<open>\<open>len |= ((uint64_t)*it++) << k\<close>\<close>

definition or_shifted :: "64 word \<Rightarrow> nat \<Rightarrow> Iter \<Rightarrow> (64 word \<times> Iter) option" where
  "or_shifted len k it =
     do { (b, it') \<leftarrow> deref_inc it; Some (len OR push_bit k (ucast b), it') }"

definition get_encoded_int :: "Iter \<Rightarrow> (64 word \<times> Iter) option" where
  "get_encoded_int it0 =
     do {
       (b, it) \<leftarrow> deref_inc it0;
       if b = 0xfc then
         do {
           (b0, it) \<leftarrow> deref_inc it;
           or_shifted (ucast b0) 8 it
         }
       else if b = 0xfd then
         do {
           (b0, it) \<leftarrow> deref_inc it;
           (len, it) \<leftarrow> or_shifted (ucast b0) 8 it;
           or_shifted len 16 it
         }
       else if b = 0xfe then
         do {
           (b0, it) \<leftarrow> deref_inc it;
           (len, it) \<leftarrow> or_shifted (ucast b0) 8 it;
           (len, it) \<leftarrow> or_shifted len 16 it;
           (len, it) \<leftarrow> or_shifted len 24 it;
           (len, it) \<leftarrow> or_shifted len 32 it;
           (len, it) \<leftarrow> or_shifted len 40 it;
           (len, it) \<leftarrow> or_shifted len 48 it;
           or_shifted len 56 it
         }
       else Some (ucast b, it)
     }"

definition get_encoded_str :: "Iter \<Rightarrow> (byte list \<times> Iter) option" where
  "get_encoded_str it0 =
     do {
       (len, start) \<leftarrow> get_encoded_int it0;
       it \<leftarrow> advance (unat len) start;
       str \<leftarrow> between start it;
       Some (str, it)
     }"

definition skip_encoded_str :: "Iter \<Rightarrow> Iter option" where
  "skip_encoded_str it0 =
     do {
       (len, it) \<leftarrow> get_encoded_int it0;
       advance (unat len) it
     }"

text \<open>The value of a byte string read as a little-endian number.\<close>

fun le_val :: "byte list \<Rightarrow> nat" where
  "le_val [] = 0"
| "le_val (b # bs) = unat b + 256 * le_val bs"


text \<open>
  The value built by the repeated \<open>len |= ((uint64_t)*it++) << k\<close> of
  \<open>get_encoded_int\<close>, for \<open>k\<close>, \<open>k + 8\<close>, ... over the bytes given.
\<close>

fun or_chain :: "64 word \<Rightarrow> nat \<Rightarrow> byte list \<Rightarrow> 64 word" where
  "or_chain len k [] = len"
| "or_chain len k (b # bs) = or_chain (len OR push_bit k (ucast b)) (k + 8) bs"

section \<open>Protocol constants\<close>

text \<open>
  Modelled from the spec: the protocol constants are macros and enumerations of
  headers outside the sources at hand.  Their values are those of the wire format
  (spec sections 4.1, 4.3, 4.5, 4.6 and 6).
\<close>

definition MYSQL_HEADER_LEN :: nat where "MYSQL_HEADER_LEN = 4"
definition MYSQL_EOF_PACKET_LEN :: nat where "MYSQL_EOF_PACKET_LEN = 9"
definition GW_MYSQL_MAX_PACKET_LEN :: "32 word" where "GW_MYSQL_MAX_PACKET_LEN = 0xffffff"
definition GW_MYSQL_SCRAMBLE_SIZE :: nat where "GW_MYSQL_SCRAMBLE_SIZE = 20"
definition GW_SCRAMBLE_LENGTH_323 :: nat where "GW_SCRAMBLE_LENGTH_323 = 8"
definition GW_MYSQL_PROTOCOL_VERSION :: byte where "GW_MYSQL_PROTOCOL_VERSION = 0x0a"

definition MYSQL_REPLY_OK :: byte where "MYSQL_REPLY_OK = 0x00"
definition MYSQL_REPLY_ERR :: byte where "MYSQL_REPLY_ERR = 0xff"
definition MYSQL_REPLY_EOF :: byte where "MYSQL_REPLY_EOF = 0xfe"
definition MYSQL_REPLY_LOCAL_INFILE :: byte where "MYSQL_REPLY_LOCAL_INFILE = 0xfb"
definition MYSQL_REPLY_AUTHSWITCHREQUEST :: byte where "MYSQL_REPLY_AUTHSWITCHREQUEST = 0xfe"

definition SERVER_MORE_RESULTS_EXIST :: "16 word" where "SERVER_MORE_RESULTS_EXIST = 0x0008"
definition SERVER_SESSION_STATE_CHANGED :: "16 word" where "SERVER_SESSION_STATE_CHANGED = 0x4000"

definition SESSION_TRACK_SYSTEM_VARIABLES :: byte where "SESSION_TRACK_SYSTEM_VARIABLES = 0"
definition SESSION_TRACK_SCHEMA :: byte where "SESSION_TRACK_SCHEMA = 1"
definition SESSION_TRACK_STATE_CHANGE :: byte where "SESSION_TRACK_STATE_CHANGE = 2"
definition SESSION_TRACK_GTIDS :: byte where "SESSION_TRACK_GTIDS = 3"
definition SESSION_TRACK_TRANSACTION_CHARACTERISTICS :: byte where
  "SESSION_TRACK_TRANSACTION_CHARACTERISTICS = 4"
definition SESSION_TRACK_TRANSACTION_TYPE :: byte where "SESSION_TRACK_TRANSACTION_TYPE = 5"

definition MXS_COM_QUERY :: byte where "MXS_COM_QUERY = 0x03"
definition MXS_COM_FIELD_LIST :: byte where "MXS_COM_FIELD_LIST = 0x04"
definition MXS_COM_STATISTICS :: byte where "MXS_COM_STATISTICS = 0x09"
definition MXS_COM_CHANGE_USER :: byte where "MXS_COM_CHANGE_USER = 0x11"
definition MXS_COM_BINLOG_DUMP :: byte where "MXS_COM_BINLOG_DUMP = 0x12"
definition MXS_COM_STMT_PREPARE :: byte where "MXS_COM_STMT_PREPARE = 0x16"

text \<open>Names of tracked variables, as bytes.\<close>

definition str_bytes :: "string \<Rightarrow> byte list" where
  "str_bytes s = map (\<lambda>c. of_nat (of_char c)) s"

definition MXS_LAST_GTID :: "byte list" where
  "MXS_LAST_GTID = str_bytes ''last_gtid''"

definition DEFAULT_MYSQL_AUTH_PLUGIN :: "byte list" where
  "DEFAULT_MYSQL_AUTH_PLUGIN = str_bytes ''mysql_native_password''"

section \<open>The reply and the connection\<close>

datatype ReplyState = START | DONE | RSET_COLDEF | RSET_COLDEF_EOF | RSET_ROWS | PREPARE

text \<open>
  Modelled from the spec: class \<open>mxs::Reply\<close> is defined outside the sources at
  hand; its fields are those of the spec's data model (section 3).  The tracked
  variables are kept as the sequence of \<open>set_variable\<close> calls, oldest first.
\<close>

record Reply =
  command :: byte
  reply_state :: ReplyState
  row_count :: "64 word"
  num_warnings :: "16 word"
  field_counts :: "64 word list"
  is_ok :: bool
  generated_id :: "32 word"
  param_count :: "16 word"
  error :: "(16 word \<times> byte list \<times> byte list) option"
  variables :: "(byte list \<times> byte list) list"

definition set_variable :: "byte list \<Rightarrow> byte list \<Rightarrow> Reply \<Rightarrow> Reply" where
  "set_variable k v r = r\<lparr>variables := variables r @ [(k, v)]\<rparr>"

definition set_error :: "16 word \<Rightarrow> byte list \<Rightarrow> byte list \<Rightarrow> Reply \<Rightarrow> Reply" where
  "set_error code sqlstate msg r = r\<lparr>error := Some (code, sqlstate, msg)\<rparr>"

datatype AuthState = CONNECTED | RESPONSE_SENT | COMPLETE | FAIL | FAIL_HANDSHAKE

text \<open>
  The fields of the session data \<open>MYSQL_session\<close> that the backend reads:
  \<open>auth_token_phase2\<close> is the cached \<open>SHA1(real_password)\<close>.
\<close>

record MYSQL_session =
  user :: "byte list"
  db :: "byte list"
  auth_token_phase2 :: "byte list"
  m_charset :: byte
  connect_attrs :: "byte list"
  changing_user :: bool

text \<open>What the connection asks of its DCB, other than appending to the write queue.\<close>

datatype effect = Hangup | ProtocolWrite "byte list" | ErrorResponse "byte list"

text \<open>
  The members of \<open>MariaDBBackendConnection\<close> that the functions below read or
  write.  \<open>session_track_required\<close> is the value of
  \<open>rcap_type_required(capabilities, RCAP_TYPE_SESSION_STATE_TRACKING)\<close>,
  \<open>load_active\<close> the session flag behind \<open>session_set_load_active\<close>,
  \<open>writeq\<close> the buffers appended to the DCB's write queue, oldest first,
  \<open>effects\<close> the other calls made on the DCB, oldest first.

  Modelled from the spec: the class is declared in a header outside the sources at
  hand; the widths of the two counters are those of the spec's data model
  (\<open>RSetColDef(remaining: u64)\<close>, \<open>Prepare(remaining: u32)\<close>), \<open>m_scramble\<close>
  is an array of 20 bytes and \<open>m_ignore_replies\<close> a signed counter.
\<close>

record Backend =
  m_reply :: Reply
  m_skip_next :: bool
  m_num_coldefs :: "64 word"
  m_ps_packets :: "32 word"
  m_opening_cursor :: bool
  m_changing_user :: bool
  m_track_state :: bool
  session_track_required :: bool
  load_active :: bool
  m_auth_state :: AuthState
  m_ignore_replies :: int
  m_stored_query :: "byte list option"
  m_scramble :: "byte list"
  m_client_data :: MYSQL_session
  m_thread_id :: "64 word"
  server_capabilities :: "32 word"
  writeq :: "byte list list"
  effects :: "effect list"

definition set_reply_state :: "ReplyState \<Rightarrow> Backend \<Rightarrow> Backend" where
  "set_reply_state s c = c\<lparr>m_reply := (m_reply c)\<lparr>reply_state := s\<rparr>\<rparr>"

text \<open>A 16-bit value from its low and high byte: \<open>v = lo; v |= hi << 8\<close>.\<close>

definition le16 :: "byte \<Rightarrow> byte \<Rightarrow> 16 word" where
  "le16 lo hi = ucast lo OR push_bit 8 (ucast hi)"

section \<open>The reply state machine\<close>

text \<open>
  The functions are those of the release build: an \<open>mxb_assert\<close> is a check
  of the debug build and does nothing here.
\<close>

definition is_last_eof :: "Iter \<Rightarrow> bool option" where
  "is_last_eof it0 =
     do {
       it \<leftarrow> advance 3 it0;
       (s0, it) \<leftarrow> deref_inc it;
       (s1, it) \<leftarrow> deref_inc it;
       Some (le16 s0 s1 AND SERVER_MORE_RESULTS_EXIST = 0)
     }"

definition update_error :: "Iter \<Rightarrow> Iter \<Rightarrow> Backend \<Rightarrow> Backend option" where
  "update_error it0 end_it c =
     do {
       (c0, it) \<leftarrow> deref_inc it0;
       (c1, it) \<leftarrow> deref_inc it;
       it \<leftarrow> inc it;
       sql_state_end \<leftarrow> advance 5 it;
       sql_state \<leftarrow> between it sql_state_end;
       message \<leftarrow> between sql_state_end end_it;
       Some (c\<lparr>m_reply := set_error (le16 c0 c1) sql_state message (m_reply c)\<rparr>)
     }"

text \<open>One round of the session-track loop of \<open>process_ok_packet\<close>.\<close>

definition track_entry :: "Iter \<Rightarrow> Reply \<Rightarrow> (Iter \<times> Reply) option" where
  "track_entry it0 r =
     do {
       (type, it) \<leftarrow> deref_inc it0;
       (total_size, it) \<leftarrow> get_encoded_int it;
       if type = SESSION_TRACK_STATE_CHANGE then
         do { it \<leftarrow> advance (unat total_size) it; Some (it, r) }
       else if type = SESSION_TRACK_SCHEMA then
         do { it \<leftarrow> skip_encoded_str it; Some (it, r) }
       else if type = SESSION_TRACK_GTIDS then
         do {
           it \<leftarrow> skip_encoded_int it;
           (s, it) \<leftarrow> get_encoded_str it;
           Some (it, set_variable MXS_LAST_GTID s r)
         }
       else if type = SESSION_TRACK_TRANSACTION_CHARACTERISTICS then
         do {
           (s, it) \<leftarrow> get_encoded_str it;
           Some (it, set_variable (str_bytes ''trx_characteristics'') s r)
         }
       else if type = SESSION_TRACK_SYSTEM_VARIABLES then
         do {
           (name, it) \<leftarrow> get_encoded_str it;
           (val, it) \<leftarrow> get_encoded_str it;
           Some (it, set_variable name val r)
         }
       else if type = SESSION_TRACK_TRANSACTION_TYPE then
         do {
           (s, it) \<leftarrow> get_encoded_str it;
           Some (it, set_variable (str_bytes ''trx_state'') s r)
         }
       else
         do { it \<leftarrow> advance (unat total_size) it; Some (it, r) }
     }"


text \<open>Every operation on an iterator moves it forward; one round of the loop uses up bytes.\<close>

lemma deref_inc_length: "deref_inc it = Some (b, it') \<Longrightarrow> length it = Suc (length it')"
  by (auto simp: deref_inc_def split: list.splits)

lemma inc_length: "inc it = Some it' \<Longrightarrow> length it = Suc (length it')"
  by (auto simp: inc_def split: list.splits)

lemma advance_length: "advance n it = Some it' \<Longrightarrow> length it = n + length it'"
  by (auto simp: advance_def split: if_splits)

lemma or_shifted_length: "or_shifted len k it = Some (w, it') \<Longrightarrow> length it = Suc (length it')"
  by (auto simp: or_shifted_def dest: deref_inc_length split: Option.bind_splits)

lemma get_encoded_int_length:
  "get_encoded_int it = Some (w, it') \<Longrightarrow> length it' < length it"
  by (auto simp: get_encoded_int_def
           dest!: deref_inc_length or_shifted_length
           split: Option.bind_splits if_splits)

lemma skip_encoded_int_length:
  "skip_encoded_int it = Some it' \<Longrightarrow> length it' < length it"
  by (auto simp: skip_encoded_int_def deref_def
           dest!: inc_length advance_length
           split: Option.bind_splits if_splits list.splits)

lemma get_encoded_str_length:
  "get_encoded_str it = Some (s, it') \<Longrightarrow> length it' < length it"
  by (auto simp: get_encoded_str_def
           dest!: get_encoded_int_length advance_length
           split: Option.bind_splits)

lemma skip_encoded_str_length:
  "skip_encoded_str it = Some it' \<Longrightarrow> length it' < length it"
  by (auto simp: skip_encoded_str_def
           dest!: get_encoded_int_length advance_length
           split: Option.bind_splits)

lemma track_entry_length:
  "track_entry it r = Some (it', r') \<Longrightarrow> length it' < length it"
  by (auto simp: track_entry_def
           dest!: deref_inc_length get_encoded_int_length get_encoded_str_length
                  skip_encoded_str_length skip_encoded_int_length advance_length
           split: Option.bind_splits if_splits)

text \<open>The loop \<open>while (it != end)\<close> of \<open>process_ok_packet\<close>.\<close>

function track_loop :: "Iter \<Rightarrow> Iter \<Rightarrow> Reply \<Rightarrow> Reply option" where
  "track_loop it end_it r =
     (if length it = length end_it then Some r
      else case track_entry it r of
             None \<Rightarrow> None
           | Some (it', r') \<Rightarrow> track_loop it' end_it r')"
  by pat_completeness auto
termination
  by (relation "measure (\<lambda>(it, end_it, r). length it)") (auto dest: track_entry_length)

declare track_loop.simps [simp del]


definition process_ok_packet :: "Iter \<Rightarrow> Iter \<Rightarrow> Backend \<Rightarrow> Backend option" where
  "process_ok_packet it0 end_it c0 =
     do {
       it \<leftarrow> inc it0;
       it \<leftarrow> skip_encoded_int it;
       it \<leftarrow> skip_encoded_int it;
       (s0, it) \<leftarrow> deref_inc it;
       (s1, it) \<leftarrow> deref_inc it;
       let status = le16 s0 s1;
       let c = (if status AND SERVER_MORE_RESULTS_EXIST = 0 then set_reply_state DONE c0 else c0);
       (w0, it) \<leftarrow> deref_inc it;
       (w1, it) \<leftarrow> deref_inc it;
       let c = c\<lparr>m_reply := (m_reply c)\<lparr>num_warnings := le16 w0 w1\<rparr>\<rparr>;
       if session_track_required c \<and> status AND SERVER_SESSION_STATE_CHANGED \<noteq> 0
          \<and> m_track_state c
       then
         do {
           it \<leftarrow> skip_encoded_str it;
           (total_size, it) \<leftarrow> get_encoded_int it;
           r \<leftarrow> track_loop it end_it (m_reply c);
           Some (c\<lparr>m_reply := r\<rparr>)
         }
       else Some c
     }"

definition process_ps_response :: "Iter \<Rightarrow> Iter \<Rightarrow> Backend \<Rightarrow> Backend option" where
  "process_ps_response it0 end_it c =
     do {
       it \<leftarrow> inc it0;
       (i0, it) \<leftarrow> deref_inc it;
       (i1, it) \<leftarrow> deref_inc it;
       (i2, it) \<leftarrow> deref_inc it;
       (i3, it) \<leftarrow> deref_inc it;
       let stmt_id = (ucast i0 OR push_bit 8 (ucast i1) OR push_bit 16 (ucast i2)
                      OR push_bit 24 (ucast i3) :: 32 word);
       (c0, it) \<leftarrow> deref_inc it;
       (c1, it) \<leftarrow> deref_inc it;
       let columns = (ucast c0 + push_bit 8 (ucast c1) :: 16 word);
       (p0, it) \<leftarrow> deref_inc it;
       (p1, it) \<leftarrow> deref_inc it;
       let params = (ucast p0 + push_bit 8 (ucast p1) :: 16 word);
       let r = (m_reply c)\<lparr>generated_id := stmt_id, param_count := params\<rparr>;
       let ps0 = (0 :: 32 word);
       let ps1 = (if columns \<noteq> 0 then ps0 + (ucast columns + 1) else ps0);
       let ps2 = (if params \<noteq> 0 then ps1 + (ucast params + 1) else ps1);
       Some (set_reply_state (if ps2 = 0 then DONE else PREPARE)
               (c\<lparr>m_reply := r, m_ps_packets := ps2\<rparr>))
     }"

definition process_result_start :: "Iter \<Rightarrow> Iter \<Rightarrow> Backend \<Rightarrow> Backend option" where
  "process_result_start it end_it c =
     do {
       cmd \<leftarrow> deref it;
       if cmd = MYSQL_REPLY_OK then
         (let c = c\<lparr>m_reply := (m_reply c)\<lparr>is_ok := True\<rparr>\<rparr> in
          if command (m_reply c) = MXS_COM_STMT_PREPARE
          then process_ps_response it end_it c
          else process_ok_packet it end_it c)
       else if cmd = MYSQL_REPLY_LOCAL_INFILE then
         Some (set_reply_state DONE (c\<lparr>load_active := True\<rparr>))
       else if cmd = MYSQL_REPLY_ERR then
         do {
           it \<leftarrow> inc it;
           c \<leftarrow> update_error it end_it c;
           Some (set_reply_state DONE c)
         }
       else if cmd = MYSQL_REPLY_EOF then Some c
       else
         do {
           (n, it) \<leftarrow> get_encoded_int it;
           let c = c\<lparr>m_num_coldefs := n,
                      m_reply := (m_reply c)\<lparr>field_counts := field_counts (m_reply c) @ [n]\<rparr>\<rparr>;
           Some (set_reply_state RSET_COLDEF c)
         }
     }"

definition process_reply_start :: "Iter \<Rightarrow> Iter \<Rightarrow> Backend \<Rightarrow> Backend option" where
  "process_reply_start it end_it c =
     (if command (m_reply c) = MXS_COM_BINLOG_DUMP then Some c
      else if command (m_reply c) = MXS_COM_STATISTICS then Some (set_reply_state DONE c)
      else if command (m_reply c) = MXS_COM_FIELD_LIST then Some (set_reply_state RSET_ROWS c)
      else process_result_start it end_it c)"

definition process_one_packet :: "Iter \<Rightarrow> Iter \<Rightarrow> 32 word \<Rightarrow> Backend \<Rightarrow> Backend option" where
  "process_one_packet it end_it len c =
     do {
       cmd \<leftarrow> deref it;
       case reply_state (m_reply c) of
         START \<Rightarrow> process_reply_start it end_it c
       | DONE \<Rightarrow>
           if cmd = MYSQL_REPLY_ERR then do { it \<leftarrow> inc it; update_error it end_it c }
           else Some c
       | RSET_COLDEF \<Rightarrow>
           (let c = c\<lparr>m_num_coldefs := m_num_coldefs c - 1\<rparr> in
            if m_num_coldefs c = 0 then Some (set_reply_state RSET_COLDEF_EOF c) else Some c)
       | RSET_COLDEF_EOF \<Rightarrow>
           (let c = set_reply_state RSET_ROWS c in
            if m_opening_cursor c
            then Some (set_reply_state DONE (c\<lparr>m_opening_cursor := False\<rparr>))
            else Some c)
       | RSET_ROWS \<Rightarrow>
           if cmd = MYSQL_REPLY_EOF \<and> unat len = MYSQL_EOF_PACKET_LEN - MYSQL_HEADER_LEN then
             do {
               last \<leftarrow> is_last_eof it;
               let c = set_reply_state (if last then DONE else START) c;
               it \<leftarrow> inc it;
               (w0, it) \<leftarrow> deref_inc it;
               w1 \<leftarrow> deref it;
               Some (c\<lparr>m_reply := (m_reply c)\<lparr>num_warnings := le16 w0 w1\<rparr>\<rparr>)
             }
           else if cmd = MYSQL_REPLY_ERR then
             do {
               it \<leftarrow> inc it;
               c \<leftarrow> update_error it end_it c;
               Some (set_reply_state DONE c)
             }
           else Some (c\<lparr>m_reply := (m_reply c)\<lparr>row_count := row_count (m_reply c) + 1\<rparr>\<rparr>)
       | PREPARE \<Rightarrow>
           (let c = c\<lparr>m_ps_packets := m_ps_packets c - 1\<rparr> in
            if m_ps_packets c = 0 then Some (set_reply_state DONE c) else Some c)
     }"

text \<open>
  The head of the loop of \<open>process_packets\<close>: the three length bytes, least
  significant first, and the skipped sequence byte.
\<close>

definition read_header :: "Iter \<Rightarrow> (32 word \<times> Iter) option" where
  "read_header it0 =
     do {
       (l0, it) \<leftarrow> deref_inc it0;
       (l1, it) \<leftarrow> deref_inc it;
       (l2, it) \<leftarrow> deref_inc it;
       it \<leftarrow> inc it;
       Some (ucast l0 OR push_bit 8 (ucast l1) OR push_bit 16 (ucast l2), it)
     }"

lemma read_header_length: "read_header it = Some (len, it') \<Longrightarrow> length it = length it' + 4"
  by (auto simp: read_header_def dest!: deref_inc_length inc_length split: Option.bind_splits)

text \<open>
  The loop of \<open>process_packets\<close> over a buffer of \<open>total_bytes\<close> bytes; it
  returns \<open>bytes_used\<close> and the connection.
\<close>

function process_packets_loop ::
  "nat \<Rightarrow> Iter \<Rightarrow> nat \<Rightarrow> Backend \<Rightarrow> (nat \<times> Backend) option" where
  "process_packets_loop total_bytes it bytes_used c =
     (if it = [] then Some (bytes_used, c)
      else
        let bytes_left = total_bytes - bytes_used in
        if bytes_left < MYSQL_HEADER_LEN then Some (bytes_used, c)
        else
          case read_header it of
            None \<Rightarrow> None
          | Some (len, it1) \<Rightarrow>
              if bytes_left < unat len + MYSQL_HEADER_LEN then Some (bytes_used, c)
              else
                case advance (unat len) it1 of
                  None \<Rightarrow> None
                | Some end_it \<Rightarrow>
                    let skip_next = m_skip_next c;
                        c1 = c\<lparr>m_skip_next := (len = GW_MYSQL_MAX_PACKET_LEN)\<rparr>
                    in
                      case (if \<not> skip_next then process_one_packet it1 end_it len c1
                            else Some c1) of
                        None \<Rightarrow> None
                      | Some c2 \<Rightarrow>
                          process_packets_loop total_bytes end_it
                            (bytes_used + (unat len + MYSQL_HEADER_LEN)) c2)"
  by pat_completeness auto
termination
  by (relation "measure (\<lambda>(total_bytes, it, bytes_used, c). length it)")
     (auto dest!: read_header_length advance_length)

declare process_packets_loop.simps [simp del]

text \<open>
  \<open>process_packets\<close> returns the first \<open>bytes_used\<close> bytes of the buffer
  (\<open>gwbuf_split\<close>) and leaves the rest in \<open>*result\<close>: the model returns the
  connection, the bytes returned and the bytes left.
\<close>

definition process_packets :: "Backend \<Rightarrow> byte list \<Rightarrow> (Backend \<times> byte list \<times> byte list) option" where
  "process_packets c buffer =
     do {
       (bytes_used, c') \<leftarrow> process_packets_loop (length buffer) buffer 0 c;
       Some (c', take bytes_used buffer, drop bytes_used buffer)
     }"


section \<open>Password scrambling and COM_CHANGE_USER\<close>

text \<open>
  Modelled from the spec: \<open>gw_sha1_str\<close>, \<open>gw_sha1_2_str\<close>, \<open>gw_str_xor\<close>,
  \<open>set_byte3\<close>, \<open>gw_mysql_get_byte2/4\<close>, \<open>gw_strend\<close>, \<open>gwbuf_copy_data\<close> and
  \<open>DCB::writeq_append\<close> (the wire primitives and SHA-1 and XOR helpers of spec
  section 2) are defined outside the sources at hand.  The digest function SHA-1
  is a parameter \<open>sha1\<close> of every function that hashes; whether a write to the
  DCB succeeds is a parameter \<open>write_ok\<close>.
\<close>

definition gw_sha1_str :: "(byte list \<Rightarrow> byte list) \<Rightarrow> byte list \<Rightarrow> byte list" where
  "gw_sha1_str sha1 input = sha1 input"

definition gw_sha1_2_str ::
  "(byte list \<Rightarrow> byte list) \<Rightarrow> byte list \<Rightarrow> byte list \<Rightarrow> byte list" where
  "gw_sha1_2_str sha1 in1 in2 = sha1 (in1 @ in2)"

definition gw_str_xor :: "byte list \<Rightarrow> byte list \<Rightarrow> nat \<Rightarrow> byte list" where
  "gw_str_xor input1 input2 len = map (\<lambda>i. (input1 ! i) XOR (input2 ! i)) [0..<len]"

definition set_byte3 :: "nat \<Rightarrow> byte list" where
  "set_byte3 n = [of_nat n, of_nat (n div 256), of_nat (n div 65536)]"

definition writeq_append :: "bool \<Rightarrow> byte list \<Rightarrow> Backend \<Rightarrow> bool \<times> Backend" where
  "writeq_append write_ok buffer c =
     (if write_ok then (True, c\<lparr>writeq := writeq c @ [buffer]\<rparr>) else (False, c))"

text \<open>\<open>std::string::c_str()\<close> as \<open>strlen\<close>, \<open>memcpy\<close> and \<open>strcmp\<close> see it.\<close>

definition c_str :: "byte list \<Rightarrow> byte list" where
  "c_str s = takeWhile (\<lambda>b. b \<noteq> 0) s"

text \<open>\<open>uint8_t null_client_sha1[MYSQL_SCRAMBLE_LEN] = ""\<close>\<close>

definition null_client_sha1 :: "byte list" where
  "null_client_sha1 = replicate 20 0"

definition mxs_mysql_calculate_hash ::
  "(byte list \<Rightarrow> byte list) \<Rightarrow> byte list \<Rightarrow> byte list \<Rightarrow> byte list" where
  "mxs_mysql_calculate_hash sha1 scramble passwd =
     (let hash1 = take GW_MYSQL_SCRAMBLE_SIZE passwd;
          hash2 = gw_sha1_str sha1 hash1;
          new_sha = gw_sha1_2_str sha1 (take GW_MYSQL_SCRAMBLE_SIZE scramble)
                      (take GW_MYSQL_SCRAMBLE_SIZE hash2)
      in gw_str_xor new_sha hash1 GW_MYSQL_SCRAMBLE_SIZE)"

definition gw_create_change_user_packet :: "(byte list \<Rightarrow> byte list) \<Rightarrow> Backend \<Rightarrow> byte list" where
  "gw_create_change_user_packet sha1 c =
     (let mses = m_client_data c;
          db = c_str (db mses);
          curr_db = (if length db > 0 then Some db else None);
          curr_passwd = (if length (auth_token_phase2 mses) = GW_MYSQL_SCRAMBLE_SIZE
                         then Some (auth_token_phase2 mses) else None);
          user = c_str (user mses);
          plugin_strlen = length DEFAULT_MYSQL_AUTH_PLUGIN;
          bytes = 1 + (length user + 1)
                  + (if curr_passwd \<noteq> None then GW_MYSQL_SCRAMBLE_SIZE else 0) + 1
                  + (case curr_db of Some d \<Rightarrow> length d | None \<Rightarrow> 0) + 1
                  + 2 + (plugin_strlen + 1) + length (connect_attrs mses) + 4;
          auth = (case curr_passwd of
                    Some pw \<Rightarrow>
                      (let hash1 = take GW_MYSQL_SCRAMBLE_SIZE pw;
                           hash2 = gw_sha1_str sha1 hash1;
                           new_sha = gw_sha1_2_str sha1 (take 20 (m_scramble c)) (take 20 hash2);
                           client_scramble = gw_str_xor new_sha hash1 GW_MYSQL_SCRAMBLE_SIZE
                       in of_nat GW_MYSQL_SCRAMBLE_SIZE # client_scramble)
                  | None \<Rightarrow> [0])
      in set_byte3 (bytes - MYSQL_HEADER_LEN) @ [0x00] @ [0x11] @ user @ [0] @ auth
         @ (case curr_db of Some d \<Rightarrow> d | None \<Rightarrow> []) @ [0]
         @ [m_charset mses, 0] @ DEFAULT_MYSQL_AUTH_PLUGIN @ [0] @ connect_attrs mses)"

section \<open>Pooled connections\<close>

definition established :: "Backend \<Rightarrow> bool" where
  "established c \<longleftrightarrow>
     m_auth_state c = COMPLETE \<and> m_ignore_replies c = 0 \<and> m_stored_query c = None"

text \<open>
  \<open>reuse_connection\<close>: \<open>polling\<close> says whether the DCB is in state \<open>POLLING\<close>,
  \<open>new_session\<close> is the session data of the session that takes the connection.
\<close>

definition reuse_connection ::
  "(byte list \<Rightarrow> byte list) \<Rightarrow> bool \<Rightarrow> MYSQL_session \<Rightarrow> bool \<Rightarrow> Backend \<Rightarrow> bool \<times> Backend" where
  "reuse_connection sha1 polling new_session write_ok c =
     (if \<not> polling \<or> m_auth_state c \<noteq> COMPLETE then (False, c)
      else
        let orig_session = m_client_data c;
            c1 = c\<lparr>m_client_data := new_session, m_ignore_replies := 0\<rparr>;
            c2 = (if m_stored_query c1 \<noteq> None then c1\<lparr>m_stored_query := None\<rparr> else c1);
            buf = gw_create_change_user_packet sha1 c2;
            (ok, c3) = writeq_append write_ok buf c2
        in if ok then (True, c3\<lparr>m_ignore_replies := m_ignore_replies c3 + 1\<rparr>)
           else (False, c3\<lparr>m_client_data := orig_session\<rparr>))"

section \<open>The reply to COM_CHANGE_USER\<close>

definition send_mysql_native_password_response ::
  "(byte list \<Rightarrow> byte list) \<Rightarrow> bool \<Rightarrow> Backend \<Rightarrow> bool \<times> Backend" where
  "send_mysql_native_password_response sha1 write_ok c =
     (let curr_passwd = (if auth_token_phase2 (m_client_data c) = [] then null_client_sha1
                         else auth_token_phase2 (m_client_data c));
          buffer = set_byte3 GW_MYSQL_SCRAMBLE_SIZE @ [2]
                   @ mxs_mysql_calculate_hash sha1 (m_scramble c) curr_passwd
      in writeq_append write_ok buffer c)"

text \<open>
  \<open>strcmp(p, literal) == 0\<close> for a literal without NUL bytes, \<open>p\<close> being the
  bytes from the pointer to the end of the buffer; \<open>None\<close> when the comparison
  runs past the buffer.
\<close>

fun c_streq :: "byte list \<Rightarrow> byte list \<Rightarrow> bool option" where
  "c_streq [] lit = None"
| "c_streq (x # xs) [] = Some (x = 0)"
| "c_streq (x # xs) (y # ys) = (if x = y then c_streq xs ys else Some False)"

text \<open>\<open>gwbuf_copy_data(buffer, offset, bytes, dest)\<close>: the new contents of \<open>dest\<close>.\<close>

definition gwbuf_copy_data :: "byte list \<Rightarrow> nat \<Rightarrow> nat \<Rightarrow> byte list \<Rightarrow> byte list" where
  "gwbuf_copy_data buffer offset bytes dest =
     (let copied = take bytes (drop offset buffer) in copied @ drop (length copied) dest)"

definition mxs_mysql_get_command :: "byte list \<Rightarrow> byte option" where
  "mxs_mysql_get_command buf = deref (drop MYSQL_HEADER_LEN buf)"

definition auth_change_requested :: "byte list \<Rightarrow> bool option" where
  "auth_change_requested buf =
     do {
       cmd \<leftarrow> mxs_mysql_get_command buf;
       Some (cmd = MYSQL_REPLY_AUTHSWITCHREQUEST \<and> length buf > MYSQL_EOF_PACKET_LEN)
     }"

definition handle_auth_change_response ::
  "(byte list \<Rightarrow> byte list) \<Rightarrow> bool \<Rightarrow> byte list \<Rightarrow> Backend \<Rightarrow> (bool \<times> Backend) option" where
  "handle_auth_change_response sha1 write_ok reply c =
     do {
       same \<leftarrow> c_streq (drop 5 reply) DEFAULT_MYSQL_AUTH_PLUGIN;
       if same then
         (let c = c\<lparr>m_scramble :=
                     gwbuf_copy_data reply (5 + length DEFAULT_MYSQL_AUTH_PLUGIN + 1)
                       GW_MYSQL_SCRAMBLE_SIZE (m_scramble c)\<rparr>
          in Some (send_mysql_native_password_response sha1 write_ok c))
       else Some (False, c)
     }"

text \<open>
  How \<open>gw_read_and_write\<close> ends: with a value returned, with the value of
  \<open>dcb->protocol_write(query)\<close> returned, or in the loop that routes the packets
  upstream (not modelled further).
\<close>

datatype rw_outcome = Returned int | ReturnedProtocolWrite | RouteUpstream "byte list list"

text \<open>\<open>GWBUF_DATA(read_buffer)[3] = 0x3\<close> on the packets of the read buffer.\<close>

definition set_first_seq :: "byte \<Rightarrow> byte list list \<Rightarrow> byte list list" where
  "set_first_seq v packets =
     (case packets of [] \<Rightarrow> [] | p # ps \<Rightarrow> (p[3 := v]) # ps)"

text \<open>
  \<open>gw_read_and_write\<close> from the point where \<open>read_buffer\<close> holds the complete
  packets read from the backend, given here one by one, in order.
\<close>

definition gw_read_and_write ::
  "(byte list \<Rightarrow> byte list) \<Rightarrow> bool \<Rightarrow> byte list list \<Rightarrow> Backend \<Rightarrow> (rw_outcome \<times> Backend) option" where
  "gw_read_and_write sha1 write_ok packets c0 =
     (if packets = [] then Some (Returned 0, c0)
      else
        do {
          (handled, packets, c) \<leftarrow>
            (if m_changing_user c0 then
               do {
                 req \<leftarrow> auth_change_requested (concat packets);
                 (sent, c) \<leftarrow> (if req then handle_auth_change_response sha1 write_ok (concat packets) c0
                              else Some (False, c0));
                 if req \<and> sent then Some (True, packets, c)
                 else Some (False, set_first_seq 0x3 packets,
                            c\<lparr>m_changing_user := False,
                              m_client_data := (m_client_data c)\<lparr>changing_user := False\<rparr>\<rparr>)
               }
             else Some (False, packets, c0));
          if handled then Some (Returned 0, c)
          else if m_ignore_replies c > 0 then
            do {
              let query = m_stored_query c;
              let c = c\<lparr>m_stored_query := None, m_ignore_replies := m_ignore_replies c - 1\<rparr>;
              let reply = last packets;
              result \<leftarrow> mxs_mysql_get_command reply;
              if result = MYSQL_REPLY_OK then
                (case query of
                   Some q \<Rightarrow> Some (ReturnedProtocolWrite, c\<lparr>effects := effects c @ [ProtocolWrite q]\<rparr>)
                 | None \<Rightarrow> Some (Returned 1, c))
              else
                do {
                  req \<leftarrow> auth_change_requested reply;
                  if req then
                    do {
                      (sent, c) \<leftarrow> handle_auth_change_response sha1 write_ok reply c;
                      if sent then
                        Some (Returned 0,
                              c\<lparr>m_stored_query := query, m_ignore_replies := m_ignore_replies c + 1\<rparr>)
                      else Some (Returned 0, c\<lparr>effects := effects c @ [Hangup]\<rparr>)
                    }
                  else if result = MYSQL_REPLY_ERR then
                    Some (Returned 0, c\<lparr>effects := effects c @ [ErrorResponse reply, Hangup]\<rparr>)
                  else Some (Returned 0, c\<lparr>effects := effects c @ [Hangup]\<rparr>)
                }
            }
          else Some (RouteUpstream packets, c)
        })"

section \<open>The server handshake\<close>

text \<open>
  A pointer into the payload is the bytes from it to the end of the buffer, as for
  the iterators; reading past the buffer is \<open>None\<close>.
\<close>

definition gw_strend :: "byte list \<Rightarrow> byte list option" where
  "gw_strend p = (if 0 \<in> set p then Some (dropWhile (\<lambda>b. b \<noteq> 0) p) else None)"

definition memcpy_from :: "byte list \<Rightarrow> nat \<Rightarrow> byte list option" where
  "memcpy_from p n = (if n \<le> length p then Some (take n p) else None)"

definition gw_mysql_get_byte2 :: "byte list \<Rightarrow> 16 word option" where
  "gw_mysql_get_byte2 p =
     (case p of b0 # b1 # _ \<Rightarrow> Some (ucast b0 OR push_bit 8 (ucast b1)) | _ \<Rightarrow> None)"

definition gw_mysql_get_byte4 :: "byte list \<Rightarrow> 32 word option" where
  "gw_mysql_get_byte4 p =
     (case p of
        b0 # b1 # b2 # b3 # _ \<Rightarrow>
          Some (ucast b0 OR push_bit 8 (ucast b1) OR push_bit 16 (ucast b2)
                OR push_bit 24 (ucast b3))
      | _ \<Rightarrow> None)"

definition gw_decode_mysql_server_handshake :: "byte list \<Rightarrow> Backend \<Rightarrow> (int \<times> Backend) option" where
  "gw_decode_mysql_server_handshake payload0 c0 =
     do {
       protocol_version \<leftarrow> deref payload0;
       if protocol_version \<noteq> GW_MYSQL_PROTOCOL_VERSION then Some (- 1, c0)
       else
         do {
           payload \<leftarrow> advance 1 payload0;
           server_version_end \<leftarrow> gw_strend payload;
           payload \<leftarrow> advance 1 server_version_end;
           tid \<leftarrow> gw_mysql_get_byte4 payload;
           let c = c0\<lparr>m_thread_id := ucast tid\<rparr>;
           payload \<leftarrow> advance 4 payload;
           scramble_data_1 \<leftarrow> memcpy_from payload GW_SCRAMBLE_LENGTH_323;
           payload \<leftarrow> advance GW_SCRAMBLE_LENGTH_323 payload;
           payload \<leftarrow> advance 1 payload;
           mysql_server_capabilities_one \<leftarrow> gw_mysql_get_byte2 payload;
           payload \<leftarrow> advance 5 payload;
           mysql_server_capabilities_two \<leftarrow> gw_mysql_get_byte2 payload;
           let c = c\<lparr>server_capabilities :=
                       ucast mysql_server_capabilities_one
                       OR push_bit 16 (ucast mysql_server_capabilities_two)\<rparr>;
           payload \<leftarrow> advance 2 payload;
           b \<leftarrow> deref payload;
           let scramble_len = (if b > 0 then int (unat b) - 1 else int GW_MYSQL_SCRAMBLE_SIZE);
           if b > 0 \<and> (scramble_len < int GW_SCRAMBLE_LENGTH_323
                        \<or> scramble_len > int GW_MYSQL_SCRAMBLE_SIZE)
           then Some (- 2, c)
           else
             do {
               payload \<leftarrow> advance 11 payload;
               scramble_data_2 \<leftarrow> memcpy_from payload (nat scramble_len - GW_SCRAMBLE_LENGTH_323);
               let mxs_scramble =
                     scramble_data_1 @ scramble_data_2
                     @ replicate (GW_MYSQL_SCRAMBLE_SIZE - nat scramble_len) 0;
               Some (0, c\<lparr>m_scramble := mxs_scramble\<rparr>)
             }
         }
     }"

section \<open>Running the machine over several packets\<close>



section \<open>Concrete connections\<close>

text \<open>
  A connection with every counter at zero, one that has sent command \<open>cmd\<close> and
  is in a given reply state, and a stand-in for the digest function that returns 20
  bytes, as SHA-1 does.
\<close>

definition digest20 :: "byte list \<Rightarrow> byte list" where
  "digest20 x = take 20 (x @ replicate 20 0)"

definition fresh_reply :: Reply where
  "fresh_reply = \<lparr>command = 0, reply_state = DONE, row_count = 0, num_warnings = 0,
     field_counts = [], is_ok = False, generated_id = 0, param_count = 0, error = None,
     variables = []\<rparr>"

definition fresh_session :: MYSQL_session where
  "fresh_session = \<lparr>user = [], db = [], auth_token_phase2 = [], m_charset = 0,
     connect_attrs = [], changing_user = False\<rparr>"

definition fresh_backend :: Backend where
  "fresh_backend = \<lparr>m_reply = fresh_reply, m_skip_next = False, m_num_coldefs = 0,
     m_ps_packets = 0, m_opening_cursor = False, m_changing_user = False,
     m_track_state = False, session_track_required = False, load_active = False,
     m_auth_state = CONNECTED, m_ignore_replies = 0, m_stored_query = None,
     m_scramble = replicate 20 0, m_client_data = fresh_session, m_thread_id = 0,
     server_capabilities = 0, writeq = [], effects = []\<rparr>"

definition awaiting :: "byte \<Rightarrow> ReplyState \<Rightarrow> Backend" where
  "awaiting cmd st = fresh_backend\<lparr>m_reply := fresh_reply\<lparr>command := cmd, reply_state := st\<rparr>,
     m_auth_state := COMPLETE\<rparr>"

text \<open>
  A scramble, a cached password hash, a session and a connection taken from the
  pool that waits for the reply to COM_CHANGE_USER; an AuthSwitchRequest to the
  default plugin that carries the scramble \<open>S\<close>; and a server greeting whose
  auth-data length byte is 9, that is, whose declared scramble length is 8.
\<close>

definition example_scramble :: "byte list" where
  "example_scramble = [1, 2, 3, 4, 5, 6, 7, 8, 9, 10, 11, 12, 13, 14, 15, 16, 17, 18, 19, 20]"

definition example_token :: "byte list" where
  "example_token = [0xa0, 0xa1, 0xa2, 0xa3, 0xa4, 0xa5, 0xa6, 0xa7, 0xa8, 0xa9,
                    0xb0, 0xb1, 0xb2, 0xb3, 0xb4, 0xb5, 0xb6, 0xb7, 0xb8, 0xb9]"

definition example_session :: MYSQL_session where
  "example_session = fresh_session\<lparr>user := str_bytes ''maxuser'', auth_token_phase2 := example_token\<rparr>"

definition pooled_backend :: Backend where
  "pooled_backend = fresh_backend\<lparr>m_auth_state := COMPLETE, m_ignore_replies := 1,
     m_scramble := example_scramble, m_client_data := example_session\<rparr>"

definition auth_switch_request :: "byte list \<Rightarrow> byte list" where
  "auth_switch_request S = [0x2c, 0, 0, 1, 0xfe] @ DEFAULT_MYSQL_AUTH_PLUGIN @ [0] @ S @ [0]"

definition greeting_len8 :: "byte list" where
  "greeting_len8 =
     [0x0a] @ [0x35, 0x2e, 0x35, 0x2e, 0x35, 0x00] @ [0x2a, 0, 0, 0]
     @ [1, 2, 3, 4, 5, 6, 7, 8] @ [0] @ [0xff, 0xf7] @ [0x08] @ [0x02, 0x00] @ [0x0f, 0x80]
     @ [9] @ replicate 10 0
     @ [0x11, 0x12, 0x13, 0x14, 0x15, 0x16, 0x17, 0x18, 0x19, 0x1a, 0x1b, 0x1c, 0x00]
     @ DEFAULT_MYSQL_AUTH_PLUGIN @ [0]"

section \<open>The wire formats, as the spec has them\<close>

text \<open>
  The encodings that the decoders are compared with follow the spec (sections 4.2,
  4.6 and 6): a length-encoded integer, a length-encoded string, the entries of a
  session-track block and the OK packet.
\<close>

fun le_bytes :: "nat \<Rightarrow> nat \<Rightarrow> byte list" where
  "le_bytes 0 n = []"
| "le_bytes (Suc k) n = of_nat n # le_bytes k (n div 256)"

definition lenenc_int :: "nat \<Rightarrow> byte list" where
  "lenenc_int n =
     (if n < 0xfb then [of_nat n]
      else if n < 2 ^ 16 then 0xfc # le_bytes 2 n
      else if n < 2 ^ 24 then 0xfd # le_bytes 3 n
      else 0xfe # le_bytes 8 n)"

definition lenenc_str :: "byte list \<Rightarrow> byte list" where
  "lenenc_str s = lenenc_int (length s) @ s"

text \<open>
  An entry of a session-track block: \<open>(type, total_size, body)\<close>.  The body of a
  state change and of an entry of unknown type is kept as bytes.
\<close>

datatype track_item =
    SystemVariable "byte list" "byte list"
  | Schema "byte list"
  | StateChange "byte list"
  | Gtids nat "byte list"
  | TrxCharacteristics "byte list"
  | TrxType "byte list"
  | UnknownItem byte "byte list"

fun item_body :: "track_item \<Rightarrow> byte list" where
  "item_body (SystemVariable name val) = lenenc_str name @ lenenc_str val"
| "item_body (Schema s) = lenenc_str s"
| "item_body (StateChange body) = body"
| "item_body (Gtids spec gtid) = lenenc_int spec @ lenenc_str gtid"
| "item_body (TrxCharacteristics s) = lenenc_str s"
| "item_body (TrxType s) = lenenc_str s"
| "item_body (UnknownItem t body) = body"

fun item_type :: "track_item \<Rightarrow> byte" where
  "item_type (SystemVariable name val) = SESSION_TRACK_SYSTEM_VARIABLES"
| "item_type (Schema s) = SESSION_TRACK_SCHEMA"
| "item_type (StateChange body) = SESSION_TRACK_STATE_CHANGE"
| "item_type (Gtids spec gtid) = SESSION_TRACK_GTIDS"
| "item_type (TrxCharacteristics s) = SESSION_TRACK_TRANSACTION_CHARACTERISTICS"
| "item_type (TrxType s) = SESSION_TRACK_TRANSACTION_TYPE"
| "item_type (UnknownItem t body) = t"

definition encode_item :: "track_item \<Rightarrow> byte list" where
  "encode_item e = item_type e # lenenc_int (length (item_body e)) @ item_body e"

text \<open>
  The lengths of an entry fit the 64 bits of a length-encoded integer; an unknown
  type is none of 0 to 5.
\<close>

fun item_ok :: "track_item \<Rightarrow> bool" where
  "item_ok (SystemVariable name val) \<longleftrightarrow>
     length name < 2 ^ 64 \<and> length val < 2 ^ 64
     \<and> length (item_body (SystemVariable name val)) < 2 ^ 64"
| "item_ok (Schema s) \<longleftrightarrow> length s < 2 ^ 64 \<and> length (item_body (Schema s)) < 2 ^ 64"
| "item_ok (StateChange body) \<longleftrightarrow> length body < 2 ^ 64"
| "item_ok (Gtids spec gtid) \<longleftrightarrow>
     spec < 2 ^ 64 \<and> length gtid < 2 ^ 64 \<and> length (item_body (Gtids spec gtid)) < 2 ^ 64"
| "item_ok (TrxCharacteristics s) \<longleftrightarrow>
     length s < 2 ^ 64 \<and> length (item_body (TrxCharacteristics s)) < 2 ^ 64"
| "item_ok (TrxType s) \<longleftrightarrow> length s < 2 ^ 64 \<and> length (item_body (TrxType s)) < 2 ^ 64"
| "item_ok (UnknownItem t body) \<longleftrightarrow> 5 < unat t \<and> length body < 2 ^ 64"

text \<open>The variables that an entry sets, by its type (spec section 4.6).\<close>

fun item_vars :: "track_item \<Rightarrow> (byte list \<times> byte list) list" where
  "item_vars (SystemVariable name val) = [(name, val)]"
| "item_vars (Gtids spec gtid) = [(MXS_LAST_GTID, gtid)]"
| "item_vars (TrxCharacteristics s) = [(str_bytes ''trx_characteristics'', s)]"
| "item_vars (TrxType s) = [(str_bytes ''trx_state'', s)]"
| "item_vars (Schema s) = []"
| "item_vars (StateChange body) = []"
| "item_vars (UnknownItem t body) = []"

definition encode_items :: "track_item list \<Rightarrow> byte list" where
  "encode_items es = concat (map encode_item es)"

text \<open>
  An OK packet: \<open>0x00\<close>, affected rows, last insert id, status, warnings, and
  either any bytes or the info string followed by a session-track block.
\<close>

datatype ok_tail = RawTail "byte list" | Tracking "byte list" "track_item list"

record ok_data =
  affected_rows :: nat
  last_insert_id :: nat
  status_lo :: byte
  status_hi :: byte
  warn_lo :: byte
  warn_hi :: byte
  trailer :: ok_tail

fun tail_bytes :: "ok_tail \<Rightarrow> byte list" where
  "tail_bytes (RawTail bs) = bs"
| "tail_bytes (Tracking info items) =
     lenenc_str info @ lenenc_int (length (encode_items items)) @ encode_items items"

definition ok_packet :: "ok_data \<Rightarrow> byte list" where
  "ok_packet d =
     0x00 # lenenc_int (affected_rows d) @ lenenc_int (last_insert_id d)
     @ [status_lo d, status_hi d, warn_lo d, warn_hi d] @ tail_bytes (trailer d)"

definition ok_status :: "ok_data \<Rightarrow> 16 word" where
  "ok_status d = le16 (status_lo d) (status_hi d)"

definition more_results :: "ok_data \<Rightarrow> bool" where
  "more_results d \<longleftrightarrow> ok_status d AND SERVER_MORE_RESULTS_EXIST \<noteq> 0"

definition tracks :: "Backend \<Rightarrow> ok_data \<Rightarrow> bool" where
  "tracks c d \<longleftrightarrow>
     session_track_required c \<and> ok_status d AND SERVER_SESSION_STATE_CHANGED \<noteq> 0
     \<and> m_track_state c"

fun tail_ok :: "ok_tail \<Rightarrow> bool" where
  "tail_ok (RawTail bs) = False"
| "tail_ok (Tracking info items) \<longleftrightarrow>
     length info < 2 ^ 64 \<and> length (encode_items items) < 2 ^ 64 \<and> list_all item_ok items"

definition ok_wellformed :: "Backend \<Rightarrow> ok_data \<Rightarrow> bool" where
  "ok_wellformed c d \<longleftrightarrow> (tracks c d \<longrightarrow> tail_ok (trailer d))"

fun tail_vars :: "ok_tail \<Rightarrow> (byte list \<times> byte list) list" where
  "tail_vars (RawTail bs) = []"
| "tail_vars (Tracking info items) = concat (map item_vars items)"

text \<open>A packet alone in its buffer, as \<open>process_one_packet\<close> takes it.\<close>

definition as_packet :: "ok_data \<Rightarrow> Iter \<times> Iter \<times> 32 word" where
  "as_packet d = (ok_packet d, [], of_nat (length (ok_packet d)))"

text \<open>
  The reply state in which each packet of a list is processed, and the connection
  after the last one.
\<close>

fun states_visited ::
  "(Iter \<times> Iter \<times> 32 word) list \<Rightarrow> Backend \<Rightarrow> (ReplyState list \<times> Backend) option" where
  "states_visited [] c = Some ([], c)"
| "states_visited ((it, end_it, len) # ps) c =
     do {
       c' \<leftarrow> process_one_packet it end_it len c;
       (sts, c'') \<leftarrow> states_visited ps c';
       Some (reply_state (m_reply c) # sts, c'')
     }"

text \<open>The connection after a well-formed OK packet has been processed.\<close>

definition after_ok :: "ok_data \<Rightarrow> Backend \<Rightarrow> Backend" where
  "after_ok d c =
     c\<lparr>m_reply := (m_reply c)\<lparr>
          reply_state := (if more_results d then reply_state (m_reply c) else DONE),
          num_warnings := le16 (warn_lo d) (warn_hi d),
          variables := variables (m_reply c) @ (if tracks c d then tail_vars (trailer d) else [])\<rparr>\<rparr>"

text \<open>
  The commands for which \<open>process_reply_start\<close> and \<open>process_result_start\<close>
  hand an OK packet to \<open>process_ok_packet\<close>.
\<close>

definition plain_command :: "byte \<Rightarrow> bool" where
  "plain_command cmd \<longleftrightarrow>
     cmd \<noteq> MXS_COM_STMT_PREPARE \<and> cmd \<noteq> MXS_COM_BINLOG_DUMP
     \<and> cmd \<noteq> MXS_COM_STATISTICS \<and> cmd \<noteq> MXS_COM_FIELD_LIST"

text \<open>A connection that tracks the session state, a session-track block and OK packets.\<close>

definition tracking_backend :: Backend where
  "tracking_backend = (awaiting 0x03 START)\<lparr>m_track_state := True, session_track_required := True\<rparr>"

definition example_items :: "track_item list" where
  "example_items =
     [SystemVariable (str_bytes ''autocommit'') (str_bytes ''ON''),
      UnknownItem 0x0a [1, 2, 3],
      Gtids 0 (str_bytes ''0-1-5''),
      SystemVariable (str_bytes ''sql_mode'') []]"

definition example_ok :: "byte \<Rightarrow> byte \<Rightarrow> ok_tail \<Rightarrow> ok_data" where
  "example_ok s0 s1 t =
     \<lparr>affected_rows = 0, last_insert_id = 0, status_lo = s0, status_hi = s1,
      warn_lo = 0, warn_hi = 0, trailer = t\<rparr>"

section \<open>Feeding a stream in chunks\<close>

text \<open>
  \<open>track_response\<close> is called with the bytes left over from the call before,
  followed by the bytes just read; \<open>feed_chunks\<close> does so for a list of chunks
  and returns the connection, all the bytes returned and the bytes left at the end.
\<close>

fun feed_chunks ::
  "Backend \<Rightarrow> byte list \<Rightarrow> byte list list \<Rightarrow> (Backend \<times> byte list \<times> byte list) option" where
  "feed_chunks c residual [] = Some (c, [], residual)"
| "feed_chunks c residual (chunk # chunks) =
     do {
       (c1, used1, residual1) \<leftarrow> process_packets c (residual @ chunk);
       (c2, used2, residual2) \<leftarrow> feed_chunks c1 residual1 chunks;
       Some (c2, used1 @ used2, residual2)
     }"

text \<open>
  A whole packet is a header and as many payload bytes as the header says; bytes
  are incomplete when they are too few for a header or for the payload of their
  header.
\<close>

definition is_packet :: "byte list \<Rightarrow> bool" where
  "is_packet p =
     (case read_header p of Some (len, payload) \<Rightarrow> length payload = unat len | None \<Rightarrow> False)"

definition incomplete :: "byte list \<Rightarrow> bool" where
  "incomplete bs \<longleftrightarrow>
     length bs < MYSQL_HEADER_LEN
     \<or> (case read_header bs of
           Some (len, payload) \<Rightarrow> length bs < unat len + MYSQL_HEADER_LEN
         | None \<Rightarrow> False)"

text \<open>
  One round of the loop of \<open>process_packets\<close> after the header has been read,
  and the loop started on a buffer of its own.
\<close>

definition loop_step :: "Iter \<Rightarrow> 32 word \<Rightarrow> Backend \<Rightarrow> Backend option" where
  "loop_step it1 len c =
     (let c1 = c\<lparr>m_skip_next := (len = GW_MYSQL_MAX_PACKET_LEN)\<rparr>
      in if \<not> m_skip_next c then process_one_packet it1 (drop (unat len) it1) len c1
         else Some c1)"

definition scan :: "Iter \<Rightarrow> Backend \<Rightarrow> (nat \<times> Backend) option" where
  "scan it c = process_packets_loop (length it) it 0 c"

text \<open>
  Two OK packets cut inside a header and inside a payload, and an empty packet
  that ends a chunk.
\<close>

definition two_ok_chunks :: "byte list list" where
  "two_ok_chunks =
     [[7, 0], [0, 1, 0, 0, 0, 0x0a, 0], [0, 0, 7, 0, 0, 2, 0, 0, 0, 2, 0, 0], [0]]"

definition empty_packet_chunks :: "byte list list" where
  "empty_packet_chunks = [[0, 0, 0, 1], [7, 0, 0, 2, 0, 0, 0, 2, 0, 0, 0]]"

section \<open>Length-encoded integers: the value decoded\<close>

lemma take_bit_self_word:
  fixes len :: "64 word"
  assumes "unat len < 2 ^ k"
  shows "take_bit k len = len"
proof -
  have "unat (take_bit k len) = take_bit k (unat len)"
    by (simp add: unsigned_take_bit_eq)
  also have "\<dots> = unat len"
    using assms by (simp add: take_bit_nat_eq_self)
  finally show ?thesis
    by (simp add: word_unat_eq_iff)
qed

lemma or_shift_plus:
  fixes len :: "64 word"
  assumes "unat len < 2 ^ k"
  shows "len OR push_bit k x = len + push_bit k x"
proof -
  have "take_bit k len AND push_bit k x = 0"
    by (rule bit_eqI) (auto simp: bit_and_iff bit_push_bit_iff bit_take_bit_iff)
  then have "len AND push_bit k x = 0"
    using take_bit_self_word [OF assms] by simp
  then show ?thesis
    by (simp add: disjunctive_add_eq_or)
qed

lemma unat_push_ucast:
  fixes b :: byte
  assumes "k + 8 \<le> 64"
  shows "unat (push_bit k (ucast b) :: 64 word) = 2 ^ k * unat b"
proof -
  have "unat b < 2 ^ 8" using unsigned_less [of b] by simp
  then have "2 ^ k * unat b < 2 ^ k * 2 ^ 8" by simp
  also have "\<dots> = (2::nat) ^ (k + 8)" by (simp add: power_add)
  also have "\<dots> \<le> 2 ^ 64" using assms by (intro power_increasing) auto
  finally have lt: "2 ^ k * unat b < (2::nat) ^ 64" .
  have "unat (push_bit k (ucast b) :: 64 word) = take_bit 64 (push_bit k (unat (ucast b :: 64 word)))"
    by (simp add: unsigned_push_bit_eq)
  also have "unat (ucast b :: 64 word) = unat b"
    using \<open>unat b < 2 ^ 8\<close> by (simp add: unsigned_ucast_eq take_bit_nat_eq_self)
  finally have "unat (push_bit k (ucast b) :: 64 word) = take_bit 64 (2 ^ k * unat b)"
    by (simp add: push_bit_eq_mult mult.commute)
  also have "\<dots> = 2 ^ k * unat b"
    using lt by (intro take_bit_nat_eq_self) simp
  finally show ?thesis .
qed

lemma unat_or_shift:
  fixes len :: "64 word" and b :: byte
  assumes "unat len < 2 ^ k" "k + 8 \<le> 64"
  shows "unat (len OR push_bit k (ucast b)) = unat len + 2 ^ k * unat b"
proof -
  have "unat b < 2 ^ 8" using unsigned_less [of b] by simp
  then have "unat b \<le> 255" by simp
  then have "2 ^ k * unat b \<le> 2 ^ k * 255" by (rule mult_le_mono2)
  then have "unat len + 2 ^ k * unat b < 2 ^ k + 2 ^ k * 255"
    using assms(1) by linarith
  also have "\<dots> = (2::nat) ^ (k + 8)" by (simp add: power_add)
  also have "\<dots> \<le> 2 ^ 64" using assms by (intro power_increasing) auto
  finally have lt: "unat len + 2 ^ k * unat b < (2::nat) ^ 64" .
  have "unat (len + push_bit k (ucast b)) = unat len + unat (push_bit k (ucast b) :: 64 word)"
    using lt unat_push_ucast [OF assms(2), of b]
    by (simp add: unat_add_lem [THEN iffD1])
  then show ?thesis
    by (simp add: or_shift_plus [OF assms(1)] unat_push_ucast [OF assms(2)])
qed


lemma unat_or_shift_step:
  fixes len :: "64 word" and b :: byte
  assumes "unat len = v \<and> v < 2 ^ k" "k + 8 \<le> 64"
  shows "unat (len OR push_bit k (ucast b)) = v + 2 ^ k * unat b
         \<and> v + 2 ^ k * unat b < 2 ^ (k + 8)"
proof -
  have v: "unat len < 2 ^ k" using assms(1) by simp
  have "unat b < 2 ^ 8" using unsigned_less [of b] by simp
  then have "unat b \<le> 255" by simp
  then have "2 ^ k * unat b \<le> 2 ^ k * 255" by (rule mult_le_mono2)
  then have "v + 2 ^ k * unat b < 2 ^ k + 2 ^ k * 255"
    using assms(1) by linarith
  also have "\<dots> = (2::nat) ^ (k + 8)" by (simp add: power_add)
  finally show ?thesis
    using unat_or_shift [OF v assms(2), of b] assms(1) by simp
qed

lemma unat_ucast_byte:
  fixes b :: byte
  shows "unat (ucast b :: 64 word) = unat b \<and> unat b < 2 ^ 8"
proof -
  have "unat b < 2 ^ 8" using unsigned_less [of b] by simp
  then show ?thesis by (simp add: unsigned_ucast_eq take_bit_nat_eq_self)
qed

lemma or_shifted_Cons [simp]:
  "or_shifted len k (b # r) = Some (len OR push_bit k (ucast b), r)"
  by (simp add: or_shifted_def deref_inc_def)

lemma deref_inc_Cons [simp]: "deref_inc (b # r) = Some (b, r)"
  by (simp add: deref_inc_def)


lemma unat_or_chain:
  "unat len = v \<and> v < 2 ^ k \<Longrightarrow> k + 8 * length bs \<le> 64 \<Longrightarrow>
   unat (or_chain len k bs) = v + 2 ^ k * le_val bs"
proof (induction bs arbitrary: len v k)
  case Nil
  then show ?case by simp
next
  case (Cons b bs)
  have k8: "k + 8 \<le> 64" using Cons.prems(2) by simp
  note st = unat_or_shift_step [OF Cons.prems(1) k8, of b]
  have "unat (or_chain (len OR push_bit k (ucast b)) (k + 8) bs)
        = (v + 2 ^ k * unat b) + 2 ^ (k + 8) * le_val bs"
    using Cons.prems(2) by (intro Cons.IH [OF st]) simp
  then show ?case by (simp add: power_add algebra_simps)
qed

lemma unat_le_word:
  "length bs < 8 \<Longrightarrow> unat (or_chain (ucast b0) 8 bs) = le_val (b0 # bs)"
  using unat_or_chain [OF unat_ucast_byte, of bs b0] by simp

lemma get_encoded_int_fc:
  "get_encoded_int (0xfc # b0 # b1 # r) = Some (or_chain (ucast b0) 8 [b1], r)"
  by (simp add: get_encoded_int_def)

lemma get_encoded_int_fd:
  "get_encoded_int (0xfd # b0 # b1 # b2 # r) = Some (or_chain (ucast b0) 8 [b1, b2], r)"
  by (simp add: get_encoded_int_def)

lemma get_encoded_int_fe:
  "get_encoded_int (0xfe # b0 # b1 # b2 # b3 # b4 # b5 # b6 # b7 # r)
     = Some (or_chain (ucast b0) 8 [b1, b2, b3, b4, b5, b6, b7], r)"
  by (simp add: get_encoded_int_def)

lemma get_encoded_int_small:
  "unat b < 0xfb \<Longrightarrow> get_encoded_int (b # r) = Some (ucast b, r)"
  by (auto simp: get_encoded_int_def)

lemma list2: "length bs = 2 \<Longrightarrow> \<exists>b0 b1. bs = [b0, b1]"
  by (cases bs; cases "tl bs"; auto)

lemma list3: "length bs = 3 \<Longrightarrow> \<exists>b0 b1 b2. bs = [b0, b1, b2]"
  by (cases bs) (auto dest: list2)

lemma list8: "length bs = 8 \<Longrightarrow> \<exists>b0 b1 b2 b3 b4 b5 b6 b7. bs = [b0, b1, b2, b3, b4, b5, b6, b7]"
  by (auto simp: length_Suc_conv eval_nat_numeral)

text \<open>
  Claim C9.  \<open>get_encoded_int\<close> returns the first byte \<open>b\<close> when \<open>b < 0xFB\<close>,
  and the little-endian value of the next 2, 3 or 8 bytes when the first byte is
  \<open>0xFC\<close>, \<open>0xFD\<close> or \<open>0xFE\<close>; it leaves the iterator 1, 3, 4 or 9 bytes
  further, and \<open>skip_encoded_int\<close> leaves it at the same place.
\<close>

theorem get_encoded_int_decodes:
  "(unat b < 0xfb \<longrightarrow>
      (\<exists>w. get_encoded_int (b # r) = Some (w, r) \<and> unat w = unat b)
      \<and> skip_encoded_int (b # r) = Some r)
   \<and> (length bs = 2 \<longrightarrow>
      (\<exists>w. get_encoded_int (0xfc # bs @ r) = Some (w, r) \<and> unat w = le_val bs)
      \<and> skip_encoded_int (0xfc # bs @ r) = Some r)
   \<and> (length bs = 3 \<longrightarrow>
      (\<exists>w. get_encoded_int (0xfd # bs @ r) = Some (w, r) \<and> unat w = le_val bs)
      \<and> skip_encoded_int (0xfd # bs @ r) = Some r)
   \<and> (length bs = 8 \<longrightarrow>
      (\<exists>w. get_encoded_int (0xfe # bs @ r) = Some (w, r) \<and> unat w = le_val bs)
      \<and> skip_encoded_int (0xfe # bs @ r) = Some r)"
proof (intro conjI impI)
  assume "unat b < 0xfb"
  then show "\<exists>w. get_encoded_int (b # r) = Some (w, r) \<and> unat w = unat b"
    using unat_ucast_byte [of b] by (simp add: get_encoded_int_small)
  show "skip_encoded_int (b # r) = Some r"
    using \<open>unat b < 0xfb\<close>
    by (auto simp: skip_encoded_int_def deref_def inc_def)
next
  assume "length bs = 2"
  then obtain b0 b1 where bs: "bs = [b0, b1]" using list2 by blast
  show "\<exists>w. get_encoded_int (0xfc # bs @ r) = Some (w, r) \<and> unat w = le_val bs"
    using unat_le_word [of "[b1]" b0] by (simp add: bs get_encoded_int_fc)
  show "skip_encoded_int (0xfc # bs @ r) = Some r"
    by (simp add: bs skip_encoded_int_def deref_def advance_def)
next
  assume "length bs = 3"
  then obtain b0 b1 b2 where bs: "bs = [b0, b1, b2]" using list3 by blast
  show "\<exists>w. get_encoded_int (0xfd # bs @ r) = Some (w, r) \<and> unat w = le_val bs"
    using unat_le_word [of "[b1, b2]" b0] by (simp add: bs get_encoded_int_fd)
  show "skip_encoded_int (0xfd # bs @ r) = Some r"
    by (simp add: bs skip_encoded_int_def deref_def advance_def)
next
  assume "length bs = 8"
  then obtain b0 b1 b2 b3 b4 b5 b6 b7 where bs: "bs = [b0, b1, b2, b3, b4, b5, b6, b7]"
    using list8 by blast
  show "\<exists>w. get_encoded_int (0xfe # bs @ r) = Some (w, r) \<and> unat w = le_val bs"
    using unat_le_word [of "[b1, b2, b3, b4, b5, b6, b7]" b0]
    by (simp add: bs get_encoded_int_fe)
  show "skip_encoded_int (0xfe # bs @ r) = Some r"
    by (simp add: bs skip_encoded_int_def deref_def advance_def)
qed

theorem get_encoded_int_decodes_witness:
  "(\<exists>w. get_encoded_int (0x2a # [0x01]) = Some (w, [0x01]) \<and> unat w = 42)
   \<and> (\<exists>w. get_encoded_int (0xfc # [0x34, 0x12] @ [0x01]) = Some (w, [0x01]) \<and> unat w = 0x1234)
   \<and> (\<exists>w. get_encoded_int (0xfd # [0x56, 0x34, 0x12] @ []) = Some (w, []) \<and> unat w = 0x123456)
   \<and> (\<exists>w. get_encoded_int (0xfe # [1, 0, 0, 0, 0, 0, 0, 1] @ []) = Some (w, [])
          \<and> unat w = 2 ^ 56 + 1)"
  using get_encoded_int_decodes [of "0x2a" "[0x01]" "[0x34, 0x12]"]
        get_encoded_int_decodes [of "0x2a" "[0x01]" "[0x34, 0x12]"]
        get_encoded_int_decodes [of "0x2a" "[]" "[0x56, 0x34, 0x12]"]
        get_encoded_int_decodes [of "0x2a" "[]" "[1, 0, 0, 0, 0, 0, 0, 1]"]
  by simp

section \<open>Reading from a non-empty iterator\<close>

lemma deref_Cons [simp]: "deref (b # r) = Some b" by (simp add: deref_def)
lemma inc_Cons [simp]: "inc (b # r) = Some r" by (simp add: inc_def)

section \<open>Pooled connections are not established\<close>

text \<open>
  Claim C10.  \<open>established\<close> holds exactly when the authentication state is
  \<open>COMPLETE\<close>, \<open>m_ignore_replies\<close> is zero and no stored query is pending.  A
  connection that \<open>reuse_connection\<close> has taken from the pool has
  \<open>m_ignore_replies = 1\<close> and is not established; neither is a connection that
  holds a stored query.
\<close>

theorem established_iff_idle:
  "(established c \<longleftrightarrow>
      m_auth_state c = COMPLETE \<and> m_ignore_replies c = 0 \<and> m_stored_query c = None)
   \<and> (reuse_connection sha1 polling new_session write_ok c = (True, c')
        \<longrightarrow> m_ignore_replies c' = 1 \<and> \<not> established c')
   \<and> (m_stored_query c \<noteq> None \<longrightarrow> \<not> established c)"
  by (auto simp: established_def reuse_connection_def writeq_append_def Let_def
           split: if_splits)

theorem established_iff_idle_witness:
  "reuse_connection digest20 True fresh_session True (awaiting 0x03 DONE)
     = (True, snd (reuse_connection digest20 True fresh_session True (awaiting 0x03 DONE)))
   \<and> established (awaiting 0x03 DONE)
   \<and> \<not> established (snd (reuse_connection digest20 True fresh_session True (awaiting 0x03 DONE)))
   \<and> \<not> established ((awaiting 0x03 DONE)\<lparr>m_stored_query := Some [1, 0, 0, 0, 0x0e]\<rparr>)"
proof -
  have r: "reuse_connection digest20 True fresh_session True (awaiting 0x03 DONE)
     = (True, snd (reuse_connection digest20 True fresh_session True (awaiting 0x03 DONE)))"
    by (simp add: reuse_connection_def writeq_append_def awaiting_def fresh_backend_def Let_def)
  have e: "established (awaiting 0x03 DONE)"
    by (simp add: established_def awaiting_def fresh_backend_def)
  show ?thesis
    using r e established_iff_idle [of "awaiting 0x03 DONE" digest20 True fresh_session True
        "snd (reuse_connection digest20 True fresh_session True (awaiting 0x03 DONE))"]
      established_iff_idle [of "(awaiting 0x03 DONE)\<lparr>m_stored_query := Some [1, 0, 0, 0, 0x0e]\<rparr>"
        digest20 True fresh_session True "awaiting 0x03 DONE"]
    by simp
qed


section \<open>The end of the rows of a result set\<close>

text \<open>
  Claim C2, as the code has it.  In state \<open>RSET_ROWS\<close> a packet whose first byte
  is \<open>0xFE\<close> and whose payload length is exactly 5
  (\<open>MYSQL_EOF_PACKET_LEN - MYSQL_HEADER_LEN\<close>) ends the rows: the warnings and the
  status are read, the state becomes \<open>DONE\<close> when \<open>SERVER_MORE_RESULTS_EXIST\<close> is
  clear and \<open>START\<close> otherwise, and no row is counted.  A packet whose first byte
  is \<open>0xFE\<close> and whose length is not 5 is counted as a row.
\<close>

theorem rset_rows_eof:
  assumes "reply_state (m_reply c) = RSET_ROWS"
  shows "process_one_packet (0xfe # w0 # w1 # s0 # s1 # rest) end_it 5 c
         = Some (c\<lparr>m_reply := (m_reply c)\<lparr>
               reply_state := (if le16 s0 s1 AND SERVER_MORE_RESULTS_EXIST = 0 then DONE else START),
               num_warnings := le16 w0 w1\<rparr>\<rparr>)
     \<and> (unat len \<noteq> 5 \<longrightarrow> process_one_packet (0xfe # rest') end_it len c
         = Some (c\<lparr>m_reply := (m_reply c)\<lparr>row_count := row_count (m_reply c) + 1\<rparr>\<rparr>))"
  using assms
  by (simp add: process_one_packet_def is_last_eof_def advance_def set_reply_state_def
       MYSQL_REPLY_EOF_def MYSQL_EOF_PACKET_LEN_def MYSQL_HEADER_LEN_def MYSQL_REPLY_ERR_def)

theorem rset_rows_eof_witness:
  "reply_state (m_reply (awaiting 0x03 RSET_ROWS)) = RSET_ROWS
   \<and> map_option (\<lambda>c. (reply_state (m_reply c), row_count (m_reply c), num_warnings (m_reply c)))
        (process_one_packet [0xfe, 1, 0, 2, 0] [] 5 (awaiting 0x03 RSET_ROWS))
       = Some (DONE, 0, 1)
   \<and> map_option (\<lambda>c. (reply_state (m_reply c), row_count (m_reply c), num_warnings (m_reply c)))
        (process_one_packet [0xfe, 0, 0, 0x0a, 0] [] 5 (awaiting 0x03 RSET_ROWS))
       = Some (START, 0, 0)"
proof -
  have s: "reply_state (m_reply (awaiting 0x03 RSET_ROWS)) = RSET_ROWS"
    by (simp add: awaiting_def fresh_backend_def fresh_reply_def)
  show ?thesis
    using s rset_rows_eof [OF s, of 1 0 2 0 "[]" "[]" 5 "[]"]
      rset_rows_eof [OF s, of 0 0 "0x0a" 0 "[]" "[]" 5 "[]"]
    by (simp add: le16_def SERVER_MORE_RESULTS_EXIST_def awaiting_def fresh_backend_def
          fresh_reply_def)
qed

text \<open>
  A packet of six bytes that starts with \<open>0xFE\<close> (shorter than 9, status without
  \<open>SERVER_MORE_RESULTS_EXIST\<close>) leaves the state at \<open>RSET_ROWS\<close> and is counted
  as a row.
\<close>

theorem eof_short_counterexample:
  "map_option (\<lambda>c. (reply_state (m_reply c), row_count (m_reply c)))
     (process_one_packet [0xfe, 0, 0, 0, 0, 0] [] 6 (awaiting 0x03 RSET_ROWS))
   = Some (RSET_ROWS, 1)"
  by (simp add: process_one_packet_def awaiting_def fresh_backend_def fresh_reply_def
       MYSQL_REPLY_EOF_def MYSQL_EOF_PACKET_LEN_def MYSQL_HEADER_LEN_def MYSQL_REPLY_ERR_def)

section \<open>The response to COM_STMT_PREPARE\<close>










section \<open>The server handshake with a declared scramble length of 8\<close>

text \<open>
  Claim C7.  The claim has the decoder fail unless the declared scramble length
  \<open>L\<close> satisfies \<open>8 < L \<le> 20\<close>, as the assertion
  \<open>mxb_assert(scramble_len > GW_SCRAMBLE_LENGTH_323)\<close> of the function has it.  The
  test that returns \<open>-2\<close> is \<open>scramble_len < GW_SCRAMBLE_LENGTH_323\<close>: for a greeting
  whose auth-data length byte is 9 (\<open>L = 8\<close>) the function returns 0 and stores the
  first eight scramble bytes followed by twelve zero bytes.
\<close>

theorem handshake_accepts_scramble_len_8:
  "map_option (\<lambda>(rc, c). (rc, m_scramble c))
     (gw_decode_mysql_server_handshake greeting_len8 fresh_backend)
   = Some (0, [1, 2, 3, 4, 5, 6, 7, 8] @ replicate 12 0)"
  by (simp add: gw_decode_mysql_server_handshake_def greeting_len8_def deref_def advance_def
        gw_strend_def memcpy_from_def gw_mysql_get_byte2_def gw_mysql_get_byte4_def
        GW_MYSQL_PROTOCOL_VERSION_def GW_SCRAMBLE_LENGTH_323_def GW_MYSQL_SCRAMBLE_SIZE_def
        DEFAULT_MYSQL_AUTH_PLUGIN_def str_bytes_def)

section \<open>The scrambled password\<close>

lemma gw_str_xor_map2:
  "length a = n \<Longrightarrow> length b = n \<Longrightarrow> gw_str_xor a b n = map2 (XOR) b a"
  by (auto simp: gw_str_xor_def list_eq_iff_nth_eq xor.commute)

lemma calculate_hash_eq:
  assumes "length S = 20" "length H1 = 20" "\<forall>x. length (sha1 x) = 20"
  shows "mxs_mysql_calculate_hash sha1 S H1 = map2 (XOR) H1 (sha1 (S @ sha1 H1))"
  using assms
  by (simp add: mxs_mysql_calculate_hash_def gw_sha1_str_def gw_sha1_2_str_def
        GW_MYSQL_SCRAMBLE_SIZE_def gw_str_xor_map2 Let_def)

lemma digest20_length: "\<forall>x. length (digest20 x) = 20"
  by (simp add: digest20_def min_def)

text \<open>
  Claim C4.  For a scramble \<open>S\<close> and a cached hash \<open>H1\<close> of 20 bytes each, the 20
  bytes that \<open>gw_create_change_user_packet\<close> writes after the header, the command
  byte, the user name with its NUL and the length byte 20 are
  \<open>H1 XOR SHA1(S || SHA1(H1))\<close>: a value of 20 bytes that depends on \<open>S\<close> and
  \<open>H1\<close> only.  SHA-1 is the parameter \<open>sha1\<close>, of which only the length of its
  result is assumed.
\<close>

theorem change_user_scramble:
  assumes "length S = 20" and "length H1 = 20" and "\<forall>x. length (sha1 x) = 20"
    and "m_scramble c = S" and "auth_token_phase2 (m_client_data c) = H1"
  shows "take 20 (drop (7 + length (c_str (user (m_client_data c))))
                    (gw_create_change_user_packet sha1 c))
           = map2 (XOR) H1 (sha1 (S @ sha1 H1))
     \<and> length (map2 (XOR) H1 (sha1 (S @ sha1 H1))) = 20
     \<and> gw_create_change_user_packet sha1 c ! (6 + length (c_str (user (m_client_data c)))) = 20"
proof -
  let ?u = "c_str (user (m_client_data c))"
  let ?x = "map2 (XOR) H1 (sha1 (S @ sha1 H1))"
  have len: "length ?x = 20" using assms by simp
  obtain hdr rest where pk: "gw_create_change_user_packet sha1 c = hdr @ ?u @ [0, 20] @ ?x @ rest"
    and hdr: "length hdr = 5"
  proof
    show "gw_create_change_user_packet sha1 c
          = (set_byte3 (length (gw_create_change_user_packet sha1 c) - 4) @ [0x00, 0x11]) @ ?u @ [0, 20] @ ?x
            @ ((if 0 < length (c_str (db (m_client_data c))) then c_str (db (m_client_data c)) else [])
               @ [0] @ [m_charset (m_client_data c), 0] @ DEFAULT_MYSQL_AUTH_PLUGIN @ [0]
               @ connect_attrs (m_client_data c))"
      using assms
      by (simp add: gw_create_change_user_packet_def Let_def gw_sha1_str_def gw_sha1_2_str_def
            GW_MYSQL_SCRAMBLE_SIZE_def MYSQL_HEADER_LEN_def gw_str_xor_map2 set_byte3_def)
    show "length (set_byte3 (length (gw_create_change_user_packet sha1 c) - 4) @ [0x00, 0x11]) = 5"
      by (simp add: set_byte3_def)
  qed
  have "take 20 (drop (7 + length ?u) (hdr @ ?u @ [0, 20] @ ?x @ rest)) = ?x"
    using hdr len by simp
  moreover have "(hdr @ ?u @ [0, 20] @ ?x @ rest) ! (6 + length ?u) = 20"
    using hdr by (simp add: nth_append)
  ultimately show ?thesis using len pk by simp
qed

theorem change_user_scramble_witness:
  "length example_scramble = 20 \<and> length example_token = 20
   \<and> (\<forall>x. length (digest20 x) = 20)
   \<and> take 20 (drop 14 (gw_create_change_user_packet digest20 pooled_backend))
       = map2 (XOR) example_token (digest20 (example_scramble @ digest20 example_token))
   \<and> gw_create_change_user_packet digest20 pooled_backend ! 13 = 20"
proof -
  have s: "length example_scramble = 20" by (simp add: example_scramble_def)
  have t: "length example_token = 20" by (simp add: example_token_def)
  have m: "m_scramble pooled_backend = example_scramble"
    by (simp add: pooled_backend_def)
  have a: "auth_token_phase2 (m_client_data pooled_backend) = example_token"
    by (simp add: pooled_backend_def example_session_def)
  have u: "length (c_str (user (m_client_data pooled_backend))) = 7"
    by (simp add: pooled_backend_def example_session_def c_str_def str_bytes_def)
  show ?thesis
    using change_user_scramble [OF s t digest20_length m a] s t digest20_length
    by (simp add: u)
qed

section \<open>The AuthSwitchRequest that answers COM_CHANGE_USER\<close>

lemma c_streq_self: "c_streq (lit @ 0 # rest) lit = Some True"
  by (induction lit) auto

lemma plugin_length: "length DEFAULT_MYSQL_AUTH_PLUGIN = 21"
  by (simp add: DEFAULT_MYSQL_AUTH_PLUGIN_def str_bytes_def)

lemma auth_switch_handled:
  assumes S: "length S = 20" and sc: "length (m_scramble c) = 20"
    and ig: "m_ignore_replies c > 0"
  shows "gw_read_and_write sha1 True
           [h0 # h1 # h2 # h3 # 0xfe # DEFAULT_MYSQL_AUTH_PLUGIN @ 0 # S @ tail] c
         = Some (Returned 0,
             c\<lparr>m_scramble := S,
               writeq := writeq c @
                 [[20, 0, 0, 2] @ mxs_mysql_calculate_hash sha1 S
                    (if auth_token_phase2 (m_client_data c) = [] then null_client_sha1
                     else auth_token_phase2 (m_client_data c))]\<rparr>)"
proof -
  let ?reply = "h0 # h1 # h2 # h3 # 0xfe # DEFAULT_MYSQL_AUTH_PLUGIN @ 0 # S @ tail"
  have req: "auth_change_requested ?reply = Some True"
    by (simp add: auth_change_requested_def mxs_mysql_get_command_def MYSQL_HEADER_LEN_def
          deref_def MYSQL_REPLY_AUTHSWITCHREQUEST_def MYSQL_EOF_PACKET_LEN_def plugin_length)
  have cp: "gwbuf_copy_data ?reply (5 + length DEFAULT_MYSQL_AUTH_PLUGIN + 1) GW_MYSQL_SCRAMBLE_SIZE sc0 = S"
    if "length sc0 = 20" for sc0
  proof -
    have "?reply = ([h0, h1, h2, h3, 0xfe] @ DEFAULT_MYSQL_AUTH_PLUGIN @ [0]) @ S @ tail"
      by simp
    then have "drop 27 ?reply = S @ tail"
      by (simp only: drop_append) (simp add: plugin_length)
    then show ?thesis
      using S that by (simp add: gwbuf_copy_data_def GW_MYSQL_SCRAMBLE_SIZE_def plugin_length)
  qed
  have h: "handle_auth_change_response sha1 True ?reply d
           = Some (True, d\<lparr>m_scramble := S,
               writeq := writeq d @
                 [[20, 0, 0, 2] @ mxs_mysql_calculate_hash sha1 S
                    (if auth_token_phase2 (m_client_data d) = [] then null_client_sha1
                     else auth_token_phase2 (m_client_data d))]\<rparr>)"
    if "length (m_scramble d) = 20" for d
    using cp [OF that]
    by (simp add: handle_auth_change_response_def c_streq_self
          send_mysql_native_password_response_def writeq_append_def Let_def set_byte3_def
          GW_MYSQL_SCRAMBLE_SIZE_def)
  have ne: "MYSQL_REPLY_OK \<noteq> (0xfe :: byte)" by (simp add: MYSQL_REPLY_OK_def)
  show ?thesis
  proof (cases "m_changing_user c")
    case True
    then show ?thesis
      using req h [OF sc] by (simp add: gw_read_and_write_def)
  next
    case False
    let ?d = "c\<lparr>m_stored_query := None, m_ignore_replies := m_ignore_replies c - 1\<rparr>"
    have d: "length (m_scramble ?d) = 20" using sc by simp
    show ?thesis
      using False ig req h [OF d]
      by (simp add: gw_read_and_write_def mxs_mysql_get_command_def MYSQL_HEADER_LEN_def
            deref_def MYSQL_REPLY_OK_def Let_def)
  qed
qed

text \<open>
  Claim C3, as the code has it.  When the reply to COM_CHANGE_USER is an
  AuthSwitchRequest to \<open>mysql_native_password\<close> and \<open>m_ignore_replies\<close> is
  positive, \<open>gw_read_and_write\<close> copies the 20 bytes of the new scramble into
  \<open>m_scramble\<close>, appends one packet to the write queue whose payload is the 20
  bytes \<open>H1 XOR SHA1(S || SHA1(H1))\<close> and whose sequence byte is \<open>0x02\<close>, and
  leaves \<open>m_ignore_replies\<close> and the stored query as they were, so that
  \<open>m_ignore_replies\<close> stays positive.
\<close>

theorem auth_switch_response:
  assumes "length S = 20" and "length (m_scramble c) = 20" and "m_ignore_replies c > 0"
    and "auth_token_phase2 (m_client_data c) = H1" and "length H1 = 20"
    and "\<forall>x. length (sha1 x) = 20"
  shows "\<exists>c'. gw_read_and_write sha1 True
                 [h0 # h1 # h2 # h3 # 0xfe # DEFAULT_MYSQL_AUTH_PLUGIN @ 0 # S @ tail] c
               = Some (Returned 0, c')
     \<and> m_scramble c' = S
     \<and> writeq c' = writeq c @ [[20, 0, 0, 2] @ map2 (XOR) H1 (sha1 (S @ sha1 H1))]
     \<and> length (map2 (XOR) H1 (sha1 (S @ sha1 H1))) = 20
     \<and> m_ignore_replies c' = m_ignore_replies c \<and> m_ignore_replies c' > 0
     \<and> m_stored_query c' = m_stored_query c"
proof -
  have ne: "H1 \<noteq> []" using assms(5) by auto
  show ?thesis
    using auth_switch_handled [OF assms(1,2,3), of sha1 h0 h1 h2 h3 tail]
      calculate_hash_eq [OF assms(1,5,6)] assms(3,4,5,6) ne
    by simp
qed

theorem auth_switch_response_witness:
  "\<exists>c'. gw_read_and_write digest20 True [auth_switch_request example_scramble] pooled_backend
          = Some (Returned 0, c')
     \<and> m_scramble c' = example_scramble
     \<and> writeq c' = [[20, 0, 0, 2] @ map2 (XOR) example_token
                       (digest20 (example_scramble @ digest20 example_token))]
     \<and> m_ignore_replies c' = 1"
proof -
  have s: "length example_scramble = 20" by (simp add: example_scramble_def)
  have t: "length example_token = 20" by (simp add: example_token_def)
  have m: "length (m_scramble pooled_backend) = 20"
    by (simp add: pooled_backend_def example_scramble_def)
  have i: "m_ignore_replies pooled_backend > 0" by (simp add: pooled_backend_def)
  have a: "auth_token_phase2 (m_client_data pooled_backend) = example_token"
    by (simp add: pooled_backend_def example_session_def)
  have w: "writeq pooled_backend = []" "m_ignore_replies pooled_backend = 1"
    by (simp_all add: pooled_backend_def fresh_backend_def)
  show ?thesis
    using auth_switch_response [OF s m i a t digest20_length, of "0x2c" 0 0 1 "[0]"]
    by (auto simp: auth_switch_request_def w)
qed

text \<open>
  The packet sent in answer to the AuthSwitchRequest is 24 bytes long and its
  sequence byte is \<open>0x02\<close>, not \<open>0x03\<close>.
\<close>

theorem auth_switch_sequence_counterexample:
  "map_option (\<lambda>(out, c). map (\<lambda>p. (length p, p ! 3)) (writeq c))
     (gw_read_and_write digest20 True [auth_switch_request example_scramble] pooled_backend)
   = Some [(24, 0x02)]"
proof -
  have s: "length example_scramble = 20" by (simp add: example_scramble_def)
  have m: "length (m_scramble pooled_backend) = 20"
    by (simp add: pooled_backend_def example_scramble_def)
  have i: "m_ignore_replies pooled_backend > 0" by (simp add: pooled_backend_def)
  have w: "writeq pooled_backend = []"
    by (simp add: pooled_backend_def fresh_backend_def)
  have l: "length (mxs_mysql_calculate_hash digest20 sc pw) = 20" for sc pw
    by (simp add: mxs_mysql_calculate_hash_def gw_str_xor_def GW_MYSQL_SCRAMBLE_SIZE_def Let_def)
  show ?thesis
    using auth_switch_handled [OF s m i, of digest20 "0x2c" 0 0 1 "[0]"]
    by (simp add: auth_switch_request_def w l)
qed

section \<open>Decoding what was encoded\<close>

lemma unat_of_nat_byte: "unat (of_nat n :: byte) = n mod 256"
  by (simp add: unat_of_nat)

lemma le_val_le_bytes: "le_val (le_bytes k n) = n mod 256 ^ k"
proof (induction k arbitrary: n)
  case 0
  then show ?case by simp
next
  case (Suc k)
  have "n mod (256 * 256 ^ k) = 256 * (n div 256 mod 256 ^ k) + n mod 256"
    by (rule mod_mult2_eq)
  then show ?case using Suc by (simp add: unat_of_nat_byte)
qed

lemma length_le_bytes [simp]: "length (le_bytes k n) = k"
  by (induction k arbitrary: n) auto

lemma get_encoded_int_bytes:
  "length bs = 2 \<Longrightarrow> \<exists>w. get_encoded_int (0xfc # bs @ r) = Some (w, r) \<and> unat w = le_val bs"
  "length bs = 3 \<Longrightarrow> \<exists>w. get_encoded_int (0xfd # bs @ r) = Some (w, r) \<and> unat w = le_val bs"
  "length bs = 8 \<Longrightarrow> \<exists>w. get_encoded_int (0xfe # bs @ r) = Some (w, r) \<and> unat w = le_val bs"
proof -
  show "\<exists>w. get_encoded_int (0xfc # bs @ r) = Some (w, r) \<and> unat w = le_val bs"
    if len: "length bs = 2"
  proof -
    obtain b0 b1 where bs: "bs = [b0, b1]" using list2 [OF len] by blast
    show ?thesis
      using unat_le_word [of "[b1]" b0] by (simp add: bs get_encoded_int_fc)
  qed
  show "\<exists>w. get_encoded_int (0xfd # bs @ r) = Some (w, r) \<and> unat w = le_val bs"
    if len: "length bs = 3"
  proof -
    obtain b0 b1 b2 where bs: "bs = [b0, b1, b2]" using list3 [OF len] by blast
    show ?thesis
      using unat_le_word [of "[b1, b2]" b0] by (simp add: bs get_encoded_int_fd)
  qed
  show "\<exists>w. get_encoded_int (0xfe # bs @ r) = Some (w, r) \<and> unat w = le_val bs"
    if len: "length bs = 8"
  proof -
    obtain b0 b1 b2 b3 b4 b5 b6 b7 where bs: "bs = [b0, b1, b2, b3, b4, b5, b6, b7]"
      using list8 [OF len] by blast
    show ?thesis
      using unat_le_word [of "[b1, b2, b3, b4, b5, b6, b7]" b0]
      by (simp add: bs get_encoded_int_fe)
  qed
qed

lemma get_encoded_int_lenenc:
  assumes "n < 2 ^ 64"
  shows "\<exists>w. get_encoded_int (lenenc_int n @ r) = Some (w, r) \<and> unat w = n"
proof -
  consider "n < 0xfb" | "\<not> n < 0xfb" "n < 2 ^ 16" | "\<not> n < 2 ^ 16" "n < 2 ^ 24" | "\<not> n < 2 ^ 24"
    by linarith
  then show ?thesis
  proof cases
    case 1
    then have u: "unat (of_nat n :: byte) = n" by (simp add: unat_of_nat_byte)
    then have "get_encoded_int (of_nat n # r) = Some (ucast (of_nat n :: byte), r)"
      using 1 by (intro get_encoded_int_small) simp
    then show ?thesis
      using 1 u unat_ucast_byte [of "of_nat n"] by (simp add: lenenc_int_def)
  next
    case 2
    have v: "le_val (le_bytes 2 n) = n" using 2 by (simp add: le_val_le_bytes)
    have e: "lenenc_int n @ r = 0xfc # le_bytes 2 n @ r"
      using 2 by (simp add: lenenc_int_def del: le_bytes.simps)
    have "\<exists>w. get_encoded_int (0xfc # le_bytes 2 n @ r) = Some (w, r)
            \<and> unat w = le_val (le_bytes 2 n)"
      by (rule get_encoded_int_bytes(1)) (rule length_le_bytes)
    then have "\<exists>w. get_encoded_int (0xfc # le_bytes 2 n @ r) = Some (w, r) \<and> unat w = n"
      by (simp only: v)
    then show ?thesis by (simp only: e)
  next
    case 3
    have v: "le_val (le_bytes 3 n) = n" using 3 by (simp add: le_val_le_bytes)
    have "\<not> n < 0xfb" using 3 by simp
    then have e: "lenenc_int n @ r = 0xfd # le_bytes 3 n @ r"
      using 3 by (simp add: lenenc_int_def del: le_bytes.simps)
    have "\<exists>w. get_encoded_int (0xfd # le_bytes 3 n @ r) = Some (w, r)
            \<and> unat w = le_val (le_bytes 3 n)"
      by (rule get_encoded_int_bytes(2)) (rule length_le_bytes)
    then have "\<exists>w. get_encoded_int (0xfd # le_bytes 3 n @ r) = Some (w, r) \<and> unat w = n"
      by (simp only: v)
    then show ?thesis by (simp only: e)
  next
    case 4
    have v: "le_val (le_bytes 8 n) = n" using assms by (simp add: le_val_le_bytes)
    have "\<not> n < 0xfb" "\<not> n < 2 ^ 16" using 4 by simp_all
    then have e: "lenenc_int n @ r = 0xfe # le_bytes 8 n @ r"
      using 4 by (simp add: lenenc_int_def del: le_bytes.simps)
    have "\<exists>w. get_encoded_int (0xfe # le_bytes 8 n @ r) = Some (w, r)
            \<and> unat w = le_val (le_bytes 8 n)"
      by (rule get_encoded_int_bytes(3)) (rule length_le_bytes)
    then have "\<exists>w. get_encoded_int (0xfe # le_bytes 8 n @ r) = Some (w, r) \<and> unat w = n"
      by (simp only: v)
    then show ?thesis by (simp only: e)
  qed
qed

lemma lenenc_int_nonempty: "lenenc_int n \<noteq> []"
  by (simp add: lenenc_int_def del: le_bytes.simps)

lemma skip_encoded_int_bytes:
  "unat b < 0xfb \<Longrightarrow> skip_encoded_int (b # r) = Some r"
  "length bs = 2 \<Longrightarrow> skip_encoded_int (0xfc # bs @ r) = Some r"
  "length bs = 3 \<Longrightarrow> skip_encoded_int (0xfd # bs @ r) = Some r"
  "length bs = 8 \<Longrightarrow> skip_encoded_int (0xfe # bs @ r) = Some r"
  by (auto simp: skip_encoded_int_def deref_def inc_def advance_def)

lemma skip_encoded_int_lenenc: "skip_encoded_int (lenenc_int n @ r) = Some r"
proof -
  have "unat (of_nat n :: byte) < 0xfb" if "n < 0xfb"
    using that by (simp add: unat_of_nat_byte)
  then show ?thesis
    by (simp add: lenenc_int_def skip_encoded_int_bytes del: le_bytes.simps)
qed

lemma get_encoded_str_lenenc:
  assumes "length s < 2 ^ 64"
  shows "get_encoded_str (lenenc_str s @ r) = Some (s, r)"
proof -
  obtain w where w: "get_encoded_int (lenenc_int (length s) @ s @ r) = Some (w, s @ r)"
    "unat w = length s"
    using get_encoded_int_lenenc [OF assms, of "s @ r"] by blast
  then show ?thesis
    by (simp add: get_encoded_str_def lenenc_str_def advance_def between_def)
qed

lemma skip_encoded_str_lenenc:
  assumes "length s < 2 ^ 64"
  shows "skip_encoded_str (lenenc_str s @ r) = Some r"
proof -
  obtain w where w: "get_encoded_int (lenenc_int (length s) @ s @ r) = Some (w, s @ r)"
    "unat w = length s"
    using get_encoded_int_lenenc [OF assms, of "s @ r"] by blast
  then show ?thesis
    by (simp add: skip_encoded_str_def lenenc_str_def advance_def)
qed

lemma track_entry_encoded:
  assumes "item_ok e"
  shows "track_entry (encode_item e @ r) rp
         = Some (r, rp\<lparr>variables := variables rp @ item_vars e\<rparr>)"
proof -
  have lt: "length (item_body e) < 2 ^ 64" using assms by (cases e) auto
  obtain w where w: "get_encoded_int (lenenc_int (length (item_body e)) @ item_body e @ r)
                       = Some (w, item_body e @ r)"
    "unat w = length (item_body e)"
    using get_encoded_int_lenenc [OF lt, of "item_body e @ r"] by blast
  have hd: "track_entry (encode_item e @ r) rp
            = (if item_type e = SESSION_TRACK_STATE_CHANGE then
                 do { it \<leftarrow> advance (length (item_body e)) (item_body e @ r); Some (it, rp) }
               else if item_type e = SESSION_TRACK_SCHEMA then
                 do { it \<leftarrow> skip_encoded_str (item_body e @ r); Some (it, rp) }
               else if item_type e = SESSION_TRACK_GTIDS then
                 do {
                   it \<leftarrow> skip_encoded_int (item_body e @ r);
                   (s, it) \<leftarrow> get_encoded_str it;
                   Some (it, set_variable MXS_LAST_GTID s rp)
                 }
               else if item_type e = SESSION_TRACK_TRANSACTION_CHARACTERISTICS then
                 do {
                   (s, it) \<leftarrow> get_encoded_str (item_body e @ r);
                   Some (it, set_variable (str_bytes ''trx_characteristics'') s rp)
                 }
               else if item_type e = SESSION_TRACK_SYSTEM_VARIABLES then
                 do {
                   (name, it) \<leftarrow> get_encoded_str (item_body e @ r);
                   (val, it) \<leftarrow> get_encoded_str it;
                   Some (it, set_variable name val rp)
                 }
               else if item_type e = SESSION_TRACK_TRANSACTION_TYPE then
                 do {
                   (s, it) \<leftarrow> get_encoded_str (item_body e @ r);
                   Some (it, set_variable (str_bytes ''trx_state'') s rp)
                 }
               else
                 do { it \<leftarrow> advance (length (item_body e)) (item_body e @ r); Some (it, rp) })"
    using w by (simp add: track_entry_def encode_item_def)
  show ?thesis
  proof (cases e)
    case (SystemVariable name val)
    show ?thesis
      unfolding hd using assms SystemVariable
      by (simp add: SESSION_TRACK_SYSTEM_VARIABLES_def SESSION_TRACK_STATE_CHANGE_def
            SESSION_TRACK_SCHEMA_def SESSION_TRACK_GTIDS_def
            SESSION_TRACK_TRANSACTION_CHARACTERISTICS_def
            get_encoded_str_lenenc set_variable_def)
  next
    case (Schema s)
    show ?thesis
      unfolding hd using assms Schema
      by (simp add: SESSION_TRACK_STATE_CHANGE_def SESSION_TRACK_SCHEMA_def
            skip_encoded_str_lenenc)
  next
    case (StateChange body)
    show ?thesis
      unfolding hd using StateChange
      by (simp add: SESSION_TRACK_STATE_CHANGE_def advance_def)
  next
    case (Gtids spec gtid)
    show ?thesis
      unfolding hd using assms Gtids
      by (simp add: SESSION_TRACK_STATE_CHANGE_def SESSION_TRACK_SCHEMA_def
            SESSION_TRACK_GTIDS_def skip_encoded_int_lenenc get_encoded_str_lenenc
            set_variable_def)
  next
    case (TrxCharacteristics s)
    show ?thesis
      unfolding hd using assms TrxCharacteristics
      by (simp add: SESSION_TRACK_STATE_CHANGE_def SESSION_TRACK_SCHEMA_def
            SESSION_TRACK_GTIDS_def SESSION_TRACK_TRANSACTION_CHARACTERISTICS_def
            get_encoded_str_lenenc set_variable_def)
  next
    case (TrxType s)
    show ?thesis
      unfolding hd using assms TrxType
      by (simp add: SESSION_TRACK_SYSTEM_VARIABLES_def SESSION_TRACK_STATE_CHANGE_def
            SESSION_TRACK_SCHEMA_def SESSION_TRACK_GTIDS_def
            SESSION_TRACK_TRANSACTION_CHARACTERISTICS_def SESSION_TRACK_TRANSACTION_TYPE_def
            get_encoded_str_lenenc set_variable_def)
  next
    case (UnknownItem t body)
    have "t \<noteq> 0" "t \<noteq> 1" "t \<noteq> 2" "t \<noteq> 3" "t \<noteq> 4" "t \<noteq> 5"
      using assms UnknownItem by auto
    then show ?thesis
      unfolding hd using UnknownItem
      by (simp add: SESSION_TRACK_SYSTEM_VARIABLES_def SESSION_TRACK_STATE_CHANGE_def
            SESSION_TRACK_SCHEMA_def SESSION_TRACK_GTIDS_def
            SESSION_TRACK_TRANSACTION_CHARACTERISTICS_def SESSION_TRACK_TRANSACTION_TYPE_def
            advance_def)
  qed
qed

lemma track_loop_encoded:
  "list_all item_ok es \<Longrightarrow>
   track_loop (encode_items es @ r) r rp
   = Some (rp\<lparr>variables := variables rp @ concat (map item_vars es)\<rparr>)"
proof (induction es arbitrary: rp)
  case Nil
  then show ?case by (simp add: encode_items_def track_loop.simps)
next
  case (Cons e es)
  have ne: "length (encode_items (e # es) @ r) \<noteq> length r"
    by (simp add: encode_items_def encode_item_def)
  have st: "track_entry (encode_items (e # es) @ r) rp
            = Some (encode_items es @ r, rp\<lparr>variables := variables rp @ item_vars e\<rparr>)"
    using Cons.prems track_entry_encoded [of e "encode_items es @ r" rp]
    by (simp add: encode_items_def)
  have "track_loop (encode_items (e # es) @ r) r rp
        = track_loop (encode_items es @ r) r (rp\<lparr>variables := variables rp @ item_vars e\<rparr>)"
    using ne st by (subst track_loop.simps) simp
  then show ?case using Cons by simp
qed

section \<open>The OK packet\<close>

lemma track_tail:
  assumes "tail_ok t"
  shows "do {
           it \<leftarrow> skip_encoded_str (tail_bytes t @ r);
           (total_size, it) \<leftarrow> get_encoded_int it;
           rp' \<leftarrow> track_loop it r rp;
           f rp'
         } = f (rp\<lparr>variables := variables rp @ tail_vars t\<rparr>)"
proof -
  obtain info items where t: "t = Tracking info items" using assms by (cases t) auto
  have i: "length info < 2 ^ 64" and b: "length (encode_items items) < 2 ^ 64"
    and ok: "list_all item_ok items"
    using assms t by auto
  obtain w where w: "get_encoded_int (lenenc_int (length (encode_items items)) @ encode_items items @ r)
       = Some (w, encode_items items @ r)"
    using get_encoded_int_lenenc [OF b, of "encode_items items @ r"] by blast
  show ?thesis
    using skip_encoded_str_lenenc [OF i, of "lenenc_int (length (encode_items items)) @ encode_items items @ r"]
      w track_loop_encoded [OF ok, of r rp]
    by (simp add: t)
qed

lemma process_ok_packet_encoded:
  assumes "ok_wellformed c d"
  shows "process_ok_packet (ok_packet d @ r) r c = Some (after_ok d c)"
proof -
  let ?c2 = "c\<lparr>m_reply := (m_reply c)\<lparr>
               reply_state := (if more_results d then reply_state (m_reply c) else DONE),
               num_warnings := le16 (warn_lo d) (warn_hi d)\<rparr>\<rparr>"
  have hd: "process_ok_packet (ok_packet d @ r) r c
     = (if tracks c d then
          do {
            it \<leftarrow> skip_encoded_str (tail_bytes (trailer d) @ r);
            (total_size, it) \<leftarrow> get_encoded_int it;
            rp \<leftarrow> track_loop it r (m_reply ?c2);
            Some (?c2\<lparr>m_reply := rp\<rparr>)
          }
        else Some ?c2)"
    unfolding process_ok_packet_def ok_packet_def tracks_def ok_status_def more_results_def
    by (auto simp add: skip_encoded_int_lenenc Let_def set_reply_state_def)
  show ?thesis
  proof (cases "tracks c d")
    case True
    then have "tail_ok (trailer d)" using assms by (simp add: ok_wellformed_def)
    from track_tail [OF this, of r "m_reply ?c2" "\<lambda>rp. Some (?c2\<lparr>m_reply := rp\<rparr>)"]
    show ?thesis
      unfolding hd using True by (simp add: after_ok_def)
  next
    case False
    then show ?thesis
      unfolding hd by (simp add: after_ok_def)
  qed
qed

lemma ok_in_start:
  assumes "reply_state (m_reply c) = START" and "plain_command (command (m_reply c))"
    and "ok_wellformed c d"
  shows "process_one_packet (ok_packet d @ r) r len c
         = Some (after_ok d (c\<lparr>m_reply := (m_reply c)\<lparr>is_ok := True\<rparr>\<rparr>))"
proof -
  let ?c = "c\<lparr>m_reply := (m_reply c)\<lparr>is_ok := True\<rparr>\<rparr>"
  have wf: "ok_wellformed ?c d"
    using assms(3) by (simp add: ok_wellformed_def tracks_def)
  have "process_one_packet (ok_packet d @ r) r len c = process_ok_packet (ok_packet d @ r) r ?c"
    using assms(1,2)
    by (simp add: process_one_packet_def process_reply_start_def process_result_start_def
          plain_command_def MYSQL_REPLY_OK_def ok_packet_def Let_def)
  then show ?thesis using process_ok_packet_encoded [OF wf, of r] by simp
qed

text \<open>
  Claim C8.  For an OK packet whose status has \<open>SERVER_SESSION_STATE_CHANGED\<close>, on a
  connection that tracks the session state, \<open>process_ok_packet\<close> sets exactly the
  variables of the entries of the session-track block, in their order: every
  SYSTEM_VARIABLES entry sets its name to its value, a GTIDS entry sets
  \<open>last_gtid\<close> to its length-encoded string (the two transaction entries set
  \<open>trx_characteristics\<close> and \<open>trx_state\<close>), and an entry of unknown type is
  skipped by its \<open>total_size\<close>: it sets nothing and the entries after it are
  extracted as if it were not there.
\<close>

theorem session_track_extraction:
  assumes "session_track_required c" and "m_track_state c"
    and "ok_status d AND SERVER_SESSION_STATE_CHANGED \<noteq> 0"
    and "trailer d = Tracking info items"
    and "length info < 2 ^ 64" and "length (encode_items items) < 2 ^ 64"
    and "list_all item_ok items"
  shows "\<exists>c'. process_ok_packet (ok_packet d @ r) r c = Some c'
     \<and> variables (m_reply c') = variables (m_reply c) @ concat (map item_vars items)
     \<and> set (variables (m_reply c'))
         = set (variables (m_reply c)) \<union> (\<Union>e\<in>set items. set (item_vars e))"
proof -
  have t: "tracks c d" using assms(1,2,3) by (simp add: tracks_def)
  have wf: "ok_wellformed c d" using assms(4-7) by (simp add: ok_wellformed_def)
  show ?thesis
    using process_ok_packet_encoded [OF wf, of r] t assms(4) by (simp add: after_ok_def)
qed

lemma length_lenenc_small: "n < 0xfb \<Longrightarrow> length (lenenc_int n) = 1"
  by (simp add: lenenc_int_def)

theorem session_track_extraction_witness:
  "\<exists>c'. process_ok_packet (ok_packet (example_ok 0x02 0x40 (Tracking [] example_items))) []
           tracking_backend = Some c'
     \<and> variables (m_reply c')
       = [(str_bytes ''autocommit'', str_bytes ''ON''), (MXS_LAST_GTID, str_bytes ''0-1-5''),
          (str_bytes ''sql_mode'', [])]"
proof -
  have a: "session_track_required tracking_backend" "m_track_state tracking_backend"
    by (simp_all add: tracking_backend_def)
  have s: "ok_status (example_ok 0x02 0x40 (Tracking [] example_items))
           AND SERVER_SESSION_STATE_CHANGED \<noteq> 0"
    by (simp add: ok_status_def example_ok_def le16_def SERVER_SESSION_STATE_CHANGED_def)
  have t: "trailer (example_ok 0x02 0x40 (Tracking [] example_items)) = Tracking [] example_items"
    by (simp add: example_ok_def)
  have i: "length ([] :: byte list) < 2 ^ 64" by simp
  have l: "length (encode_items example_items) < 2 ^ 64"
    by (simp add: encode_items_def example_items_def encode_item_def lenenc_str_def
          str_bytes_def length_lenenc_small)
  have ok: "list_all item_ok example_items"
    by (simp add: example_items_def lenenc_str_def str_bytes_def length_lenenc_small)
  have v: "variables (m_reply tracking_backend) = []"
    by (simp add: tracking_backend_def awaiting_def fresh_backend_def fresh_reply_def)
  show ?thesis
    using session_track_extraction [OF a s t i l ok, of "[]"]
    by (auto simp: v example_items_def)
qed

section \<open>OK packets in state START\<close>

lemma after_ok_fields [simp]:
  "command (m_reply (after_ok d c)) = command (m_reply c)"
  "session_track_required (after_ok d c) = session_track_required c"
  "m_track_state (after_ok d c) = m_track_state c"
  "reply_state (m_reply (after_ok d c))
     = (if more_results d then reply_state (m_reply c) else DONE)"
  by (simp_all add: after_ok_def)

lemma ok_wellformed_cong:
  "session_track_required c' = session_track_required c \<Longrightarrow>
   m_track_state c' = m_track_state c \<Longrightarrow> ok_wellformed c' d = ok_wellformed c d"
  by (simp add: ok_wellformed_def tracks_def)

lemma ok_chain:
  "reply_state (m_reply c) = START \<Longrightarrow> plain_command (command (m_reply c)) \<Longrightarrow>
   ds \<noteq> [] \<Longrightarrow> list_all (ok_wellformed c) ds \<Longrightarrow> list_all more_results (butlast ds) \<Longrightarrow>
   \<not> more_results (last ds) \<Longrightarrow>
   \<exists>c'. states_visited (map as_packet ds) c = Some (replicate (length ds) START, c')
        \<and> reply_state (m_reply c') = DONE"
proof (induction ds arbitrary: c)
  case Nil
  then show ?case by simp
next
  case (Cons d ds)
  let ?c = "c\<lparr>m_reply := (m_reply c)\<lparr>is_ok := True\<rparr>\<rparr>"
  let ?c1 = "after_ok d ?c"
  have wf: "ok_wellformed c d" using Cons.prems(4) by simp
  have one: "process_one_packet (ok_packet d) [] (of_nat (length (ok_packet d))) c = Some ?c1"
    using ok_in_start [OF Cons.prems(1,2) wf, of "[]"] by simp
  have hdp: "as_packet d = (ok_packet d, [], of_nat (length (ok_packet d)))"
    by (simp add: as_packet_def)
  show ?case
  proof (cases "ds = []")
    case True
    then have "\<not> more_results d" using Cons.prems(6) by simp
    then show ?thesis
      using one True Cons.prems(1) by (simp add: hdp)
  next
    case False
    then have m: "more_results d" using Cons.prems(5) by simp
    have st: "reply_state (m_reply ?c1) = START" using m Cons.prems(1) by simp
    have pc: "plain_command (command (m_reply ?c1))" using Cons.prems(2) by simp
    have wfs: "list_all (ok_wellformed ?c1) ds"
      using Cons.prems(4) by (simp add: ok_wellformed_cong [of ?c1 c] list_all_iff)
    have bl: "list_all more_results (butlast ds)" using Cons.prems(5) False by simp
    have la: "\<not> more_results (last ds)" using Cons.prems(6) False by simp
    obtain c' where c': "states_visited (map as_packet ds) ?c1
                          = Some (replicate (length ds) START, c')"
      "reply_state (m_reply c') = DONE"
      using Cons.IH [OF st pc False wfs bl la] by blast
    show ?thesis
      using one c' Cons.prems(1) by (simp add: hdp)
  qed
qed

text \<open>
  Claim C1, as the code has it.  In state \<open>START\<close>, for a last command other than
  COM_STMT_PREPARE, COM_BINLOG_DUMP, COM_STATISTICS and COM_FIELD_LIST, an OK packet
  moves the machine to \<open>DONE\<close> if and only if \<open>SERVER_MORE_RESULTS_EXIST\<close> is
  clear in its status, and leaves it in \<open>START\<close> otherwise.  For a chain of
  \<open>k\<close> OK packets of which the first \<open>k - 1\<close> have the bit set and the last has
  it clear, each of the \<open>k\<close> packets is processed in state \<open>START\<close> and the
  state after the last is \<open>DONE\<close>.
\<close>

theorem ok_packet_in_start:
  assumes "reply_state (m_reply c) = START" and "plain_command (command (m_reply c))"
  shows "(ok_wellformed c d \<longrightarrow>
           (\<exists>c'. process_one_packet (ok_packet d @ r) r len c = Some c'
              \<and> (reply_state (m_reply c') = DONE \<longleftrightarrow> \<not> more_results d)
              \<and> (more_results d \<longrightarrow> reply_state (m_reply c') = START)))
     \<and> (ds \<noteq> [] \<and> list_all (ok_wellformed c) ds \<and> list_all more_results (butlast ds)
          \<and> \<not> more_results (last ds) \<longrightarrow>
           (\<exists>c'. states_visited (map as_packet ds) c = Some (replicate (length ds) START, c')
              \<and> reply_state (m_reply c') = DONE))"
proof (intro conjI impI)
  assume wf: "ok_wellformed c d"
  show "\<exists>c'. process_one_packet (ok_packet d @ r) r len c = Some c'
              \<and> (reply_state (m_reply c') = DONE \<longleftrightarrow> \<not> more_results d)
              \<and> (more_results d \<longrightarrow> reply_state (m_reply c') = START)"
    using ok_in_start [OF assms wf, of r len] assms(1) by simp
next
  assume "ds \<noteq> [] \<and> list_all (ok_wellformed c) ds \<and> list_all more_results (butlast ds)
          \<and> \<not> more_results (last ds)"
  then show "\<exists>c'. states_visited (map as_packet ds) c = Some (replicate (length ds) START, c')
              \<and> reply_state (m_reply c') = DONE"
    using ok_chain [OF assms, of ds] by blast
qed

theorem ok_packet_in_start_witness:
  "(\<exists>c'. process_one_packet (ok_packet (example_ok 0x02 0x00 (RawTail []))) [] 7 (awaiting 0x03 START)
            = Some c' \<and> reply_state (m_reply c') = DONE)
   \<and> (\<exists>c'. process_one_packet (ok_packet (example_ok 0x0a 0x00 (RawTail []))) [] 7 (awaiting 0x03 START)
            = Some c' \<and> reply_state (m_reply c') = START)
   \<and> (\<exists>c'. states_visited
              (map as_packet [example_ok 0x0a 0x00 (RawTail []), example_ok 0x08 0x00 (RawTail []),
                              example_ok 0x02 0x00 (RawTail [])])
              (awaiting 0x03 START)
            = Some ([START, START, START], c') \<and> reply_state (m_reply c') = DONE)"
proof -
  have s: "reply_state (m_reply (awaiting 0x03 START)) = START"
    by (simp add: awaiting_def fresh_backend_def fresh_reply_def)
  have p: "plain_command (command (m_reply (awaiting 0x03 START)))"
    by (simp add: awaiting_def fresh_backend_def fresh_reply_def plain_command_def
          MXS_COM_STMT_PREPARE_def MXS_COM_BINLOG_DUMP_def MXS_COM_STATISTICS_def
          MXS_COM_FIELD_LIST_def)
  have wf: "ok_wellformed (awaiting 0x03 START) (example_ok s0 s1 t)" for s0 s1 t
    by (simp add: ok_wellformed_def tracks_def awaiting_def fresh_backend_def)
  have m: "\<not> more_results (example_ok 0x02 0x00 t)" "more_results (example_ok 0x0a 0x00 t)"
    "more_results (example_ok 0x08 0x00 t)" for t
    by (simp_all add: more_results_def ok_status_def example_ok_def le16_def
          SERVER_MORE_RESULTS_EXIST_def)
  have a: "(\<exists>c'. process_one_packet (ok_packet (example_ok 0x02 0x00 (RawTail []))) [] 7
                 (awaiting 0x03 START) = Some c' \<and> reply_state (m_reply c') = DONE)
     \<and> (\<exists>c'. states_visited
              (map as_packet [example_ok 0x0a 0x00 (RawTail []), example_ok 0x08 0x00 (RawTail []),
                              example_ok 0x02 0x00 (RawTail [])])
              (awaiting 0x03 START)
            = Some ([START, START, START], c') \<and> reply_state (m_reply c') = DONE)"
    using ok_packet_in_start [OF s p, of "example_ok 0x02 0x00 (RawTail [])" "[]" 7
        "[example_ok 0x0a 0x00 (RawTail []), example_ok 0x08 0x00 (RawTail []),
          example_ok 0x02 0x00 (RawTail [])]"]
    by (simp add: wf m)
  have b: "\<exists>c'. process_one_packet (ok_packet (example_ok 0x0a 0x00 (RawTail []))) [] 7
                 (awaiting 0x03 START) = Some c' \<and> reply_state (m_reply c') = START"
    using ok_packet_in_start [OF s p, of "example_ok 0x0a 0x00 (RawTail [])" "[]" 7 "[]"]
    by (simp add: wf m) blast
  show ?thesis using a b by blast
qed

text \<open>
  After COM_BINLOG_DUMP an OK packet without \<open>SERVER_MORE_RESULTS_EXIST\<close> leaves
  the machine in \<open>START\<close>; after COM_STATISTICS an OK packet with the bit set moves
  it to \<open>DONE\<close>.
\<close>

theorem ok_in_start_counterexample:
  "map_option (\<lambda>c. reply_state (m_reply c))
     (process_one_packet [0x00, 0, 0, 0x02, 0, 0, 0] [] 7 (awaiting MXS_COM_BINLOG_DUMP START))
   = Some START
   \<and> map_option (\<lambda>c. reply_state (m_reply c))
     (process_one_packet [0x00, 0, 0, 0x0a, 0, 0, 0] [] 7 (awaiting MXS_COM_STATISTICS START))
   = Some DONE"
  by (simp add: process_one_packet_def process_reply_start_def awaiting_def fresh_backend_def
        fresh_reply_def set_reply_state_def MXS_COM_BINLOG_DUMP_def MXS_COM_STATISTICS_def)

section \<open>More bytes after the packet change nothing\<close>

text \<open>
  A function that has run without reading past the end of its buffer gives the
  same result when bytes are appended to the buffer.
\<close>

lemma deref_inc_app: "deref_inc it = Some (x, it') \<Longrightarrow> deref_inc (it @ b) = Some (x, it' @ b)"
  by (auto simp: deref_inc_def split: list.splits)

lemma deref_app: "deref it = Some x \<Longrightarrow> deref (it @ b) = Some x"
  by (auto simp: deref_def split: list.splits)

lemma inc_app: "inc it = Some it' \<Longrightarrow> inc (it @ b) = Some (it' @ b)"
  by (auto simp: inc_def split: list.splits)

lemma advance_app: "advance n it = Some it' \<Longrightarrow> advance n (it @ b) = Some (it' @ b)"
  by (auto simp: advance_def split: if_splits)

lemma between_app: "between s it = Some x \<Longrightarrow> between (s @ b) (it @ b) = Some x"
  by (auto simp: between_def split: if_splits)

lemma or_shifted_app:
  "or_shifted len k it = Some (w, it') \<Longrightarrow> or_shifted len k (it @ b) = Some (w, it' @ b)"
  by (auto simp: or_shifted_def deref_inc_app split: Option.bind_split_asm)

lemma get_encoded_int_app:
  "get_encoded_int it = Some (w, it') \<Longrightarrow> get_encoded_int (it @ b) = Some (w, it' @ b)"
  by (auto simp: get_encoded_int_def deref_inc_app or_shifted_app
           split: Option.bind_split_asm if_split_asm)

lemma skip_encoded_int_app:
  "skip_encoded_int it = Some it' \<Longrightarrow> skip_encoded_int (it @ b) = Some (it' @ b)"
  by (auto simp: skip_encoded_int_def deref_app advance_app inc_app
           split: Option.bind_split_asm if_split_asm)

lemma get_encoded_str_app:
  "get_encoded_str it = Some (s, it') \<Longrightarrow> get_encoded_str (it @ b) = Some (s, it' @ b)"
  by (auto simp: get_encoded_str_def get_encoded_int_app advance_app between_app
           split: Option.bind_split_asm)

lemma skip_encoded_str_app:
  "skip_encoded_str it = Some it' \<Longrightarrow> skip_encoded_str (it @ b) = Some (it' @ b)"
  by (auto simp: skip_encoded_str_def get_encoded_int_app advance_app
           split: Option.bind_split_asm)

lemma is_last_eof_app: "is_last_eof it = Some x \<Longrightarrow> is_last_eof (it @ b) = Some x"
  by (auto simp: is_last_eof_def advance_app deref_inc_app split: Option.bind_split_asm)

lemma update_error_app:
  "update_error it e c = Some c' \<Longrightarrow> update_error (it @ b) (e @ b) c = Some c'"
  by (auto simp: update_error_def deref_inc_app inc_app advance_app between_app
           split: Option.bind_split_asm)


lemma track_entry_app:
  assumes "track_entry it r = Some (it', r')"
  shows "track_entry (it @ b) r = Some (it' @ b, r')"
proof -
  obtain t it1 where a: "deref_inc it = Some (t, it1)"
    using assms by (cases "deref_inc it") (auto simp: track_entry_def)
  obtain ts it2 where g: "get_encoded_int it1 = Some (ts, it2)"
    using assms a by (cases "get_encoded_int it1") (auto simp: track_entry_def)
  note a' = deref_inc_app [OF a, of b] and g' = get_encoded_int_app [OF g, of b]
  consider (state) "t = SESSION_TRACK_STATE_CHANGE"
    | (schema) "t \<noteq> SESSION_TRACK_STATE_CHANGE" "t = SESSION_TRACK_SCHEMA"
    | (gtids) "t \<noteq> SESSION_TRACK_STATE_CHANGE" "t \<noteq> SESSION_TRACK_SCHEMA"
        "t = SESSION_TRACK_GTIDS"
    | (chars) "t \<noteq> SESSION_TRACK_STATE_CHANGE" "t \<noteq> SESSION_TRACK_SCHEMA"
        "t \<noteq> SESSION_TRACK_GTIDS" "t = SESSION_TRACK_TRANSACTION_CHARACTERISTICS"
    | (sysvar) "t \<noteq> SESSION_TRACK_STATE_CHANGE" "t \<noteq> SESSION_TRACK_SCHEMA"
        "t \<noteq> SESSION_TRACK_GTIDS" "t \<noteq> SESSION_TRACK_TRANSACTION_CHARACTERISTICS"
        "t = SESSION_TRACK_SYSTEM_VARIABLES"
    | (trx) "t \<noteq> SESSION_TRACK_STATE_CHANGE" "t \<noteq> SESSION_TRACK_SCHEMA"
        "t \<noteq> SESSION_TRACK_GTIDS" "t \<noteq> SESSION_TRACK_TRANSACTION_CHARACTERISTICS"
        "t \<noteq> SESSION_TRACK_SYSTEM_VARIABLES" "t = SESSION_TRACK_TRANSACTION_TYPE"
    | (other) "t \<noteq> SESSION_TRACK_STATE_CHANGE" "t \<noteq> SESSION_TRACK_SCHEMA"
        "t \<noteq> SESSION_TRACK_GTIDS" "t \<noteq> SESSION_TRACK_TRANSACTION_CHARACTERISTICS"
        "t \<noteq> SESSION_TRACK_SYSTEM_VARIABLES" "t \<noteq> SESSION_TRACK_TRANSACTION_TYPE"
    by blast
  then show ?thesis
  proof cases
    case state
    have "advance (unat ts) it2 = Some it' \<and> r' = r"
      using assms a g state by (auto simp: track_entry_def split: Option.bind_split_asm)
    then show ?thesis
      using a' g' state by (simp add: track_entry_def advance_app)
  next
    case schema
    have "skip_encoded_str it2 = Some it' \<and> r' = r"
      using assms a g schema by (auto simp: track_entry_def split: Option.bind_split_asm)
    then show ?thesis
      using a' g' schema by (simp add: track_entry_def skip_encoded_str_app)
  next
    case gtids
    obtain it3 s where "skip_encoded_int it2 = Some it3" "get_encoded_str it3 = Some (s, it')"
      "r' = set_variable MXS_LAST_GTID s r"
      using assms a g gtids by (auto simp: track_entry_def split: Option.bind_split_asm)
    then show ?thesis
      using a' g' gtids
      by (simp add: track_entry_def skip_encoded_int_app get_encoded_str_app)
  next
    case chars
    obtain s where "get_encoded_str it2 = Some (s, it')"
      "r' = set_variable (str_bytes ''trx_characteristics'') s r"
      using assms a g chars by (auto simp: track_entry_def split: Option.bind_split_asm)
    then show ?thesis
      using a' g' chars by (simp add: track_entry_def get_encoded_str_app)
  next
    case sysvar
    obtain name it3 val where "get_encoded_str it2 = Some (name, it3)"
      "get_encoded_str it3 = Some (val, it')" "r' = set_variable name val r"
      using assms a g sysvar by (auto simp: track_entry_def split: Option.bind_split_asm)
    then show ?thesis
      using a' g' sysvar by (simp add: track_entry_def get_encoded_str_app)
  next
    case trx
    obtain s where "get_encoded_str it2 = Some (s, it')"
      "r' = set_variable (str_bytes ''trx_state'') s r"
      using assms a g trx by (auto simp: track_entry_def split: Option.bind_split_asm)
    then show ?thesis
      using a' g' trx by (simp add: track_entry_def get_encoded_str_app)
  next
    case other
    have "advance (unat ts) it2 = Some it' \<and> r' = r"
      using assms a g other by (auto simp: track_entry_def split: Option.bind_split_asm)
    then show ?thesis
      using a' g' other by (simp add: track_entry_def advance_app)
  qed
qed

lemma track_loop_app:
  "track_loop it e r = Some r' \<Longrightarrow> track_loop (it @ b) (e @ b) r = Some r'"
proof (induction it e r rule: track_loop.induct)
  case (1 it e r)
  show ?case
  proof (cases "length it = length e")
    case True
    then show ?thesis using "1.prems" by (simp add: track_loop.simps)
  next
    case False
    then obtain it' r1 where st: "track_entry it r = Some (it', r1)"
      and lp: "track_loop it' e r1 = Some r'"
      using "1.prems" by (subst (asm) track_loop.simps) (auto split: option.splits)
    have "track_loop (it' @ b) (e @ b) r1 = Some r'"
      using "1.IH" [OF False st refl lp] .
    then show ?thesis
      using False track_entry_app [OF st, of b]
      by (subst track_loop.simps) simp
  qed
qed

lemma process_ok_packet_app:
  assumes "process_ok_packet it e c = Some c'"
  shows "process_ok_packet (it @ b) (e @ b) c = Some c'"
proof -
  obtain it1 it2 it3 s0 it4 s1 it5 w0 it6 w1 it7 where st:
    "inc it = Some it1" "skip_encoded_int it1 = Some it2" "skip_encoded_int it2 = Some it3"
    "deref_inc it3 = Some (s0, it4)" "deref_inc it4 = Some (s1, it5)"
    "deref_inc it5 = Some (w0, it6)" "deref_inc it6 = Some (w1, it7)"
    using assms by (auto simp: process_ok_packet_def Let_def split: Option.bind_split_asm if_split_asm)
  note st' = inc_app [OF st(1), of b] skip_encoded_int_app [OF st(2), of b]
    skip_encoded_int_app [OF st(3), of b] deref_inc_app [OF st(4), of b]
    deref_inc_app [OF st(5), of b] deref_inc_app [OF st(6), of b] deref_inc_app [OF st(7), of b]
  let ?status = "le16 s0 s1"
  let ?c1 = "if ?status AND SERVER_MORE_RESULTS_EXIST = 0 then set_reply_state DONE c else c"
  let ?c2 = "?c1\<lparr>m_reply := (m_reply ?c1)\<lparr>num_warnings := le16 w0 w1\<rparr>\<rparr>"
  define tr where "tr \<longleftrightarrow> session_track_required ?c2
     \<and> ?status AND SERVER_SESSION_STATE_CHANGED \<noteq> 0 \<and> m_track_state ?c2"
  have l: "process_ok_packet it e c
           = (if tr then
                do {
                  it \<leftarrow> skip_encoded_str it7;
                  (total_size, it) \<leftarrow> get_encoded_int it;
                  r \<leftarrow> track_loop it e (m_reply ?c2);
                  Some (?c2\<lparr>m_reply := r\<rparr>)
                }
              else Some ?c2)"
    using st by (simp add: process_ok_packet_def Let_def tr_def)
  have r: "process_ok_packet (it @ b) (e @ b) c
           = (if tr then
                do {
                  it \<leftarrow> skip_encoded_str (it7 @ b);
                  (total_size, it) \<leftarrow> get_encoded_int it;
                  r \<leftarrow> track_loop it (e @ b) (m_reply ?c2);
                  Some (?c2\<lparr>m_reply := r\<rparr>)
                }
              else Some ?c2)"
    using st' by (simp add: process_ok_packet_def Let_def tr_def)
  show ?thesis
  proof (cases tr)
    case False
    then show ?thesis using assms unfolding l r by simp
  next
    case True
    then obtain it8 ts it9 rp where t:
      "skip_encoded_str it7 = Some it8" "get_encoded_int it8 = Some (ts, it9)"
      "track_loop it9 e (m_reply ?c2) = Some rp" "c' = ?c2\<lparr>m_reply := rp\<rparr>"
      using assms unfolding l by (auto split: Option.bind_split_asm)
    show ?thesis
      unfolding r
      using True skip_encoded_str_app [OF t(1), of b] get_encoded_int_app [OF t(2), of b]
        track_loop_app [OF t(3), of b] t(4)
      by simp
  qed
qed

lemma process_ps_response_app:
  assumes "process_ps_response it e c = Some c'"
  shows "process_ps_response (it @ b) (e @ b) c = Some c'"
proof -
  obtain it1 i0 it2 i1 it3 i2 it4 i3 it5 c0 it6 c1 it7 p0 it8 p1 it9 where st:
    "inc it = Some it1" "deref_inc it1 = Some (i0, it2)" "deref_inc it2 = Some (i1, it3)"
    "deref_inc it3 = Some (i2, it4)" "deref_inc it4 = Some (i3, it5)"
    "deref_inc it5 = Some (c0, it6)" "deref_inc it6 = Some (c1, it7)"
    "deref_inc it7 = Some (p0, it8)" "deref_inc it8 = Some (p1, it9)"
    using assms by (auto simp: process_ps_response_def Let_def split: Option.bind_split_asm)
  note st' = inc_app [OF st(1), of b] deref_inc_app [OF st(2), of b]
    deref_inc_app [OF st(3), of b] deref_inc_app [OF st(4), of b]
    deref_inc_app [OF st(5), of b] deref_inc_app [OF st(6), of b]
    deref_inc_app [OF st(7), of b] deref_inc_app [OF st(8), of b]
    deref_inc_app [OF st(9), of b]
  have "process_ps_response (it @ b) (e @ b) c = process_ps_response it e c"
    using st st' by (simp add: process_ps_response_def)
  then show ?thesis using assms by simp
qed

lemma process_result_start_app:
  assumes "process_result_start it e c = Some c'"
  shows "process_result_start (it @ b) (e @ b) c = Some c'"
proof -
  obtain cmd where d: "deref it = Some cmd"
    using assms by (cases "deref it") (auto simp: process_result_start_def)
  note d' = deref_app [OF d, of b]
  consider (ok) "cmd = MYSQL_REPLY_OK"
    | (infile) "cmd \<noteq> MYSQL_REPLY_OK" "cmd = MYSQL_REPLY_LOCAL_INFILE"
    | (err) "cmd \<noteq> MYSQL_REPLY_OK" "cmd \<noteq> MYSQL_REPLY_LOCAL_INFILE" "cmd = MYSQL_REPLY_ERR"
    | (eof) "cmd \<noteq> MYSQL_REPLY_OK" "cmd \<noteq> MYSQL_REPLY_LOCAL_INFILE" "cmd \<noteq> MYSQL_REPLY_ERR"
        "cmd = MYSQL_REPLY_EOF"
    | (other) "cmd \<noteq> MYSQL_REPLY_OK" "cmd \<noteq> MYSQL_REPLY_LOCAL_INFILE" "cmd \<noteq> MYSQL_REPLY_ERR"
        "cmd \<noteq> MYSQL_REPLY_EOF"
    by blast
  then show ?thesis
  proof cases
    case ok
    let ?c = "c\<lparr>m_reply := (m_reply c)\<lparr>is_ok := True\<rparr>\<rparr>"
    show ?thesis
    proof (cases "command (m_reply c) = MXS_COM_STMT_PREPARE")
      case True
      then have "process_ps_response it e ?c = Some c'"
        using assms d ok by (simp add: process_result_start_def)
      from process_ps_response_app [OF this, of b] show ?thesis
        using d' ok True by (simp add: process_result_start_def)
    next
      case False
      then have "process_ok_packet it e ?c = Some c'"
        using assms d ok by (simp add: process_result_start_def)
      from process_ok_packet_app [OF this, of b] show ?thesis
        using d' ok False by (simp add: process_result_start_def)
    qed
  next
    case infile
    then show ?thesis using assms d d' by (simp add: process_result_start_def)
  next
    case err
    then obtain it1 c1 where "inc it = Some it1" "update_error it1 e c = Some c1"
      "c' = set_reply_state DONE c1"
      using assms d by (auto simp: process_result_start_def split: Option.bind_split_asm)
    then show ?thesis
      using err d' by (simp add: process_result_start_def inc_app update_error_app)
  next
    case eof
    then show ?thesis using assms d d' by (simp add: process_result_start_def)
  next
    case other
    then obtain n it1 where "get_encoded_int it = Some (n, it1)"
      "c' = set_reply_state RSET_COLDEF
              (c\<lparr>m_num_coldefs := n,
                 m_reply := (m_reply c)\<lparr>field_counts := field_counts (m_reply c) @ [n]\<rparr>\<rparr>)"
      using assms d
      by (auto simp: process_result_start_def Let_def split: Option.bind_split_asm)
    then show ?thesis
      using other d' by (simp add: process_result_start_def get_encoded_int_app)
  qed
qed

lemma process_reply_start_app:
  "process_reply_start it e c = Some c' \<Longrightarrow> process_reply_start (it @ b) (e @ b) c = Some c'"
  by (auto simp: process_reply_start_def process_result_start_app split: if_split_asm)

lemma process_one_packet_app:
  assumes "process_one_packet it e len c = Some c'"
  shows "process_one_packet (it @ b) (e @ b) len c = Some c'"
proof -
  obtain cmd where d: "deref it = Some cmd"
    using assms by (cases "deref it") (auto simp: process_one_packet_def)
  note d' = deref_app [OF d, of b]
  show ?thesis
  proof (cases "reply_state (m_reply c)")
    case START
    then have "process_reply_start it e c = Some c'"
      using assms d by (simp add: process_one_packet_def)
    from process_reply_start_app [OF this, of b] show ?thesis
      using START d' by (simp add: process_one_packet_def)
  next
    case DONE
    show ?thesis
    proof (cases "cmd = MYSQL_REPLY_ERR")
      case True
      then obtain it1 where "inc it = Some it1" "update_error it1 e c = Some c'"
        using assms d DONE by (auto simp: process_one_packet_def split: Option.bind_split_asm)
      then show ?thesis
        using True DONE d' by (simp add: process_one_packet_def inc_app update_error_app)
    next
      case False
      then show ?thesis using assms d d' DONE by (simp add: process_one_packet_def)
    qed
  next
    case RSET_COLDEF
    then show ?thesis using assms d d' by (simp add: process_one_packet_def)
  next
    case RSET_COLDEF_EOF
    then show ?thesis using assms d d' by (simp add: process_one_packet_def)
  next
    case RSET_ROWS
    define iseof where
      "iseof \<longleftrightarrow> cmd = MYSQL_REPLY_EOF \<and> unat len = MYSQL_EOF_PACKET_LEN - MYSQL_HEADER_LEN"
    have l: "process_one_packet it e len c
       = (if iseof then
            do {
              last \<leftarrow> is_last_eof it;
              let c = set_reply_state (if last then DONE else START) c;
              it \<leftarrow> inc it;
              (w0, it) \<leftarrow> deref_inc it;
              w1 \<leftarrow> deref it;
              Some (c\<lparr>m_reply := (m_reply c)\<lparr>num_warnings := le16 w0 w1\<rparr>\<rparr>)
            }
          else if cmd = MYSQL_REPLY_ERR then
            do {
              it \<leftarrow> inc it;
              c \<leftarrow> update_error it e c;
              Some (set_reply_state DONE c)
            }
          else Some (c\<lparr>m_reply := (m_reply c)\<lparr>row_count := row_count (m_reply c) + 1\<rparr>\<rparr>))"
      using d RSET_ROWS by (simp add: process_one_packet_def iseof_def)
    have r: "process_one_packet (it @ b) (e @ b) len c
       = (if iseof then
            do {
              last \<leftarrow> is_last_eof (it @ b);
              let c = set_reply_state (if last then DONE else START) c;
              it \<leftarrow> inc (it @ b);
              (w0, it) \<leftarrow> deref_inc it;
              w1 \<leftarrow> deref it;
              Some (c\<lparr>m_reply := (m_reply c)\<lparr>num_warnings := le16 w0 w1\<rparr>\<rparr>)
            }
          else if cmd = MYSQL_REPLY_ERR then
            do {
              it \<leftarrow> inc (it @ b);
              c \<leftarrow> update_error it (e @ b) c;
              Some (set_reply_state DONE c)
            }
          else Some (c\<lparr>m_reply := (m_reply c)\<lparr>row_count := row_count (m_reply c) + 1\<rparr>\<rparr>))"
      using d' RSET_ROWS by (simp add: process_one_packet_def iseof_def)
    consider (eof) iseof | (err) "\<not> iseof" "cmd = MYSQL_REPLY_ERR"
      | (row) "\<not> iseof" "cmd \<noteq> MYSQL_REPLY_ERR"
      by blast
    then show ?thesis
    proof cases
      case eof
      then obtain last it1 w0 it2 w1 where s: "is_last_eof it = Some last" "inc it = Some it1"
        "deref_inc it1 = Some (w0, it2)" "deref it2 = Some w1"
        using assms unfolding l by (auto simp: Let_def split: Option.bind_split_asm)
      show ?thesis
        using assms eof s is_last_eof_app [OF s(1), of b] inc_app [OF s(2), of b]
          deref_inc_app [OF s(3), of b] deref_app [OF s(4), of b]
        unfolding l r by simp
    next
      case err
      then obtain it1 c1 where s: "inc it = Some it1" "update_error it1 e c = Some c1"
        "c' = set_reply_state DONE c1"
        using assms unfolding l by (auto split: Option.bind_split_asm)
      show ?thesis
        using err s inc_app [OF s(1), of b] update_error_app [OF s(2), of b]
        unfolding r by simp
    next
      case row
      then show ?thesis using assms unfolding l r by simp
    qed
  next
    case PREPARE
    then show ?thesis using assms d d' by (simp add: process_one_packet_def)
  qed
qed

lemma read_header_app:
  "read_header it = Some (len, it') \<Longrightarrow> read_header (it @ b) = Some (len, it' @ b)"
  by (auto simp: read_header_def deref_inc_app inc_app split: Option.bind_split_asm)

section \<open>The loop of the packet processor\<close>

lemma read_header_drop:
  "read_header it = Some (len, it1) \<Longrightarrow> it1 = drop 4 it \<and> 4 \<le> length it"
  by (auto simp: read_header_def deref_inc_def inc_def split: Option.bind_split_asm list.splits)

lemma read_header_total: "4 \<le> length it \<Longrightarrow> \<exists>len. read_header it = Some (len, drop 4 it)"
proof -
  assume "4 \<le> length it"
  then obtain a b c d r where "it = a # b # c # d # r"
    by (cases it; cases "tl it"; cases "tl (tl it)"; cases "tl (tl (tl it))") auto
  then show ?thesis by (simp add: read_header_def deref_inc_def inc_def)
qed

lemma loop_unfold:
  assumes "tbytes = used + length it"
  shows "process_packets_loop tbytes it used c =
     (if length it < 4 then Some (used, c)
      else case read_header it of
             None \<Rightarrow> None
           | Some (len, it1) \<Rightarrow>
               if length it < unat len + 4 then Some (used, c)
               else case loop_step it1 len c of
                      None \<Rightarrow> None
                    | Some c2 \<Rightarrow>
                        process_packets_loop tbytes (drop (unat len) it1)
                          (used + (unat len + 4)) c2)"
proof (cases "length it < 4")
  case True
  then show ?thesis
    using assms by (subst process_packets_loop.simps) (simp add: MYSQL_HEADER_LEN_def)
next
  case False
  then obtain len where h: "read_header it = Some (len, drop 4 it)"
    using read_header_total [of it] by auto
  have ne: "it \<noteq> []" using False by auto
  show ?thesis
  proof (cases "length it < unat len + 4")
    case True
    then show ?thesis
      using assms False h ne
      by (subst process_packets_loop.simps) (simp add: MYSQL_HEADER_LEN_def)
  next
    case ge: False
    then have adv: "advance (unat len) (drop 4 it) = Some (drop (unat len) (drop 4 it))"
      by (simp add: advance_def)
    show ?thesis
      using assms False h ne ge adv
      by (subst process_packets_loop.simps)
         (auto simp: MYSQL_HEADER_LEN_def loop_step_def Let_def split: option.splits)
  qed
qed

lemma loop_shift:
  "tbytes = used + length it \<Longrightarrow>
   process_packets_loop tbytes it used c
   = map_option (\<lambda>(u, c'). (used + u, c')) (process_packets_loop (length it) it 0 c)"
proof (induction "length it" arbitrary: it tbytes used c rule: less_induct)
  case less
  note tot = less.prems
  show ?case
  proof (cases "length it < 4")
    case True
    then show ?thesis
      by (simp add: loop_unfold [OF tot] loop_unfold [of "length it" 0 it])
  next
    case False
    then obtain len where h: "read_header it = Some (len, drop 4 it)"
      using read_header_total [of it] by auto
    show ?thesis
    proof (cases "length it < unat len + 4")
      case True
      then show ?thesis
        using False h by (simp add: loop_unfold [OF tot] loop_unfold [of "length it" 0 it])
    next
      case ge: False
      let ?e = "drop (unat len) (drop 4 it)"
      have le: "length ?e < length it" using False by simp
      have t1: "tbytes = (used + (unat len + 4)) + length ?e" using tot ge by simp
      have t2: "length it = (0 + (unat len + 4)) + length ?e" using ge by simp
      show ?thesis
      proof (cases "loop_step (drop 4 it) len c")
        case None
        then show ?thesis
          using False h ge by (simp add: loop_unfold [OF tot] loop_unfold [of "length it" 0 it])
      next
        case (Some c2)
        have a: "process_packets_loop tbytes it used c
                 = process_packets_loop tbytes ?e (used + (unat len + 4)) c2"
          using False h ge Some by (simp add: loop_unfold [OF tot])
        have b: "process_packets_loop (length it) it 0 c
                 = process_packets_loop (length it) ?e (0 + (unat len + 4)) c2"
          using False h ge Some by (simp add: loop_unfold [of "length it" 0 it])
        show ?thesis
          unfolding a b less.hyps [OF le t1] less.hyps [OF le t2]
          by (cases "process_packets_loop (length ?e) ?e 0 c2") auto
      qed
    qed
  qed
qed

lemma scan_unfold:
  "scan it c =
     (if length it < 4 then Some (0, c)
      else case read_header it of
             None \<Rightarrow> None
           | Some (len, it1) \<Rightarrow>
               if length it < unat len + 4 then Some (0, c)
               else case loop_step it1 len c of
                      None \<Rightarrow> None
                    | Some c2 \<Rightarrow>
                        map_option (\<lambda>(u, c'). (unat len + 4 + u, c'))
                          (scan (drop (unat len) it1) c2))"
proof -
  have "process_packets_loop (length it) (drop (unat len) it1) (0 + (unat len + 4)) c2
        = map_option (\<lambda>(u, c'). (unat len + 4 + u, c')) (scan (drop (unat len) it1) c2)"
    if "read_header it = Some (len, it1)" "\<not> length it < unat len + 4" for len it1 c2
  proof -
    have "it1 = drop 4 it" using that(1) read_header_drop by blast
    then have "length it = (0 + (unat len + 4)) + length (drop (unat len) it1)"
      using that(2) by simp
    from loop_shift [OF this] show ?thesis by (simp add: scan_def)
  qed
  then show ?thesis
    unfolding scan_def
    by (subst loop_unfold [of "length it" 0 it])
       (auto split: option.splits simp: scan_def)
qed

lemma loop_step_app:
  assumes "loop_step it1 len c = Some c2" and "unat len \<le> length it1"
  shows "loop_step (it1 @ b) len c = Some c2"
proof (cases "m_skip_next c")
  case True
  then show ?thesis using assms by (simp add: loop_step_def)
next
  case False
  then have "process_one_packet it1 (drop (unat len) it1) len
               (c\<lparr>m_skip_next := (len = GW_MYSQL_MAX_PACKET_LEN)\<rparr>) = Some c2"
    using assms(1) by (simp add: loop_step_def)
  from process_one_packet_app [OF this, of b] show ?thesis
    using False assms(2) by (simp add: loop_step_def)
qed

lemma map_option_pair_id: "map_option (\<lambda>(u, c'). (u, c')) x = x"
  by (cases x) auto

lemma scan_split:
  "scan a c = Some (u, c1) \<Longrightarrow>
   scan (a @ b) c = map_option (\<lambda>(u2, c2). (u + u2, c2)) (scan (drop u a @ b) c1)"
proof (induction "length a" arbitrary: a c u rule: less_induct)
  case less
  note run = less.prems
  show ?case
  proof (cases "length a < 4")
    case True
    then have "u = 0" "c1 = c" using run by (simp_all add: scan_unfold [of a])
    then show ?thesis by (simp add: option.map_id)
  next
    case False
    then obtain len where h: "read_header a = Some (len, drop 4 a)"
      using read_header_total [of a] by auto
    show ?thesis
    proof (cases "length a < unat len + 4")
      case True
      then have "u = 0" "c1 = c" using run False h by (simp_all add: scan_unfold [of a])
      then show ?thesis by (simp add: option.map_id)
    next
      case ge: False
      let ?e = "drop (unat len) (drop 4 a)"
      obtain c2 u' where st: "loop_step (drop 4 a) len c = Some c2"
        and rec: "scan ?e c2 = Some (u', c1)" and u: "u = unat len + 4 + u'"
        using run False h ge
        by (auto simp: scan_unfold [of a] split: option.splits)
      have le: "length ?e < length a" using False by simp
      have ih: "scan (?e @ b) c2
                = map_option (\<lambda>(u2, c2). (u' + u2, c2)) (scan (drop u' ?e @ b) c1)"
        using less.hyps [OF le rec] .
      have hb: "read_header (a @ b) = Some (len, drop 4 a @ b)"
        using read_header_app [OF h, of b] .
      have stb: "loop_step (drop 4 a @ b) len c = Some c2"
        using loop_step_app [OF st, of b] ge by simp
      have eb: "drop (unat len) (drop 4 a @ b) = ?e @ b" using ge by simp
      have d: "drop (unat len + 4 + u') a = drop u' ?e"
        by (simp add: add.commute add.left_commute)
      have g: "scan (a @ b) c
               = map_option (\<lambda>(v, c'). (unat len + 4 + v, c')) (scan (?e @ b) c2)"
        using False ge hb stb eb by (subst scan_unfold) simp
      show ?thesis
        unfolding u g d ih
        by (cases "scan (drop u' ?e @ b) c1") (auto simp del: drop_drop)
    qed
  qed
qed

lemma scan_bound: "scan a c = Some (u, c1) \<Longrightarrow> u \<le> length a"
proof (induction "length a" arbitrary: a c u rule: less_induct)
  case less
  note run = less.prems
  show ?case
  proof (cases "length a < 4")
    case True
    then show ?thesis using run by (simp add: scan_unfold [of a])
  next
    case False
    then obtain len where h: "read_header a = Some (len, drop 4 a)"
      using read_header_total [of a] by auto
    show ?thesis
    proof (cases "length a < unat len + 4")
      case True
      then show ?thesis using run False h by (simp add: scan_unfold [of a])
    next
      case ge: False
      let ?e = "drop (unat len) (drop 4 a)"
      obtain c2 u' where rec: "scan ?e c2 = Some (u', c1)" and u: "u = unat len + 4 + u'"
        using run False h ge
        by (auto simp: scan_unfold [of a] split: option.splits)
      have le: "length ?e < length a" using False by simp
      have "u' \<le> length ?e" using less.hyps [OF le rec] .
      then show ?thesis using u ge by simp
    qed
  qed
qed

lemma scan_packets:
  "scan a c = Some (u, c1) \<Longrightarrow> \<exists>ps. take u a = concat ps \<and> list_all is_packet ps"
proof (induction "length a" arbitrary: a c u rule: less_induct)
  case less
  note run = less.prems
  have nil: "\<exists>ps. take 0 a = concat ps \<and> list_all is_packet ps"
    by (rule exI [of _ "[]"]) simp
  show ?case
  proof (cases "length a < 4")
    case True
    then show ?thesis using run nil by (simp add: scan_unfold [of a])
  next
    case False
    then obtain len where h: "read_header a = Some (len, drop 4 a)"
      using read_header_total [of a] by auto
    show ?thesis
    proof (cases "length a < unat len + 4")
      case True
      then show ?thesis using run False h nil by (simp add: scan_unfold [of a])
    next
      case ge: False
      let ?e = "drop (unat len) (drop 4 a)"
      let ?p = "take (unat len + 4) a"
      obtain c2 u' where rec: "scan ?e c2 = Some (u', c1)" and u: "u = unat len + 4 + u'"
        using run False h ge
        by (auto simp: scan_unfold [of a] split: option.splits)
      have le: "length ?e < length a" using False by simp
      obtain ps where ps: "take u' ?e = concat ps" "list_all is_packet ps"
        using less.hyps [OF le rec] by blast
      have a: "a = ?p @ drop (unat len + 4) a" by simp
      have hp: "read_header ?p = Some (len, drop 4 ?p)"
      proof -
        obtain l' where l': "read_header ?p = Some (l', drop 4 ?p)"
          using read_header_total [of ?p] ge by auto
        from read_header_app [OF l', of "drop (unat len + 4) a"] h
        have "l' = len" by simp
        then show ?thesis using l' by simp
      qed
      have "is_packet ?p" using hp ge by (simp add: is_packet_def)
      moreover have "take u a = ?p @ take u' ?e"
      proof -
        have "take u a = take (unat len + 4 + u') (?p @ drop (unat len + 4) a)"
          using u by simp
        also have "\<dots> = ?p @ take u' (drop (unat len + 4) a)"
          using ge by (simp only: take_append) (simp add: min_def)
        finally show ?thesis by (simp add: add.commute)
      qed
      ultimately show ?thesis
        using ps by (intro exI [of _ "?p # ps"]) simp
    qed
  qed
qed

lemma scan_stable:
  assumes "scan a c = Some (u, c1)"
  shows "scan (drop u a) c1 = Some (0, c1)"
proof -
  from scan_split [OF assms, of "[]"] assms
  have "map_option (\<lambda>(u2, c2). (u + u2, c2)) (scan (drop u a) c1) = Some (u, c1)"
    by simp
  then show ?thesis by (cases "scan (drop u a) c1") auto
qed

lemma scan_zero_incomplete:
  assumes "scan a c = Some (0, c1)"
  shows "incomplete a"
proof (cases "length a < 4")
  case True
  then show ?thesis by (simp add: incomplete_def MYSQL_HEADER_LEN_def)
next
  case False
  then obtain len where h: "read_header a = Some (len, drop 4 a)"
    using read_header_total [of a] by auto
  have "length a < unat len + 4"
  proof (rule ccontr)
    assume "\<not> length a < unat len + 4"
    then show False
      using assms False h by (auto simp: scan_unfold [of a] split: option.splits)
  qed
  then show ?thesis using h by (simp add: incomplete_def MYSQL_HEADER_LEN_def)
qed

lemma process_packets_scan:
  "process_packets c buf
   = map_option (\<lambda>(u, c'). (c', take u buf, drop u buf)) (scan buf c)"
  by (cases "scan buf c") (auto simp: process_packets_def scan_def)

lemma process_packets_split:
  assumes "process_packets c a = Some (c1, used1, res1)"
  shows "process_packets c (a @ b)
         = do {
             (c2, used2, res2) \<leftarrow> process_packets c1 (res1 @ b);
             Some (c2, used1 @ used2, res2)
           }"
proof -
  obtain u where s: "scan a c = Some (u, c1)" and u1: "used1 = take u a"
    and r1: "res1 = drop u a"
    using assms by (auto simp: process_packets_scan)
  have le: "u \<le> length a" using scan_bound [OF s] .
  show ?thesis
  proof (cases "scan (drop u a @ b) c1")
    case None
    then show ?thesis
      using scan_split [OF s, of b] by (simp add: process_packets_scan r1)
  next
    case (Some p)
    obtain u2 c2 where p: "p = (u2, c2)" by (cases p) auto
    have "take (u + u2) (a @ b) = take u (a @ b) @ take u2 (drop u (a @ b))"
      by (rule take_add)
    then have t: "take (u + u2) (a @ b) = take u a @ take u2 (drop u a @ b)"
      using le by simp
    have d: "drop (u + u2) (a @ b) = drop u2 (drop u a @ b)"
      using le by (simp add: add.commute)
    show ?thesis
      using scan_split [OF s, of b] Some le
      by (simp add: process_packets_scan r1 u1 p t d del: take_append drop_append)
  qed
qed

lemma process_packets_stable:
  assumes "process_packets c a = Some (c1, used1, res1)"
  shows "process_packets c1 res1 = Some (c1, [], res1)"
proof -
  obtain u where s: "scan a c = Some (u, c1)" and r1: "res1 = drop u a"
    using assms by (auto simp: process_packets_scan)
  show ?thesis using scan_stable [OF s] by (simp add: process_packets_scan r1)
qed

lemma feed_chunks_whole:
  "process_packets c res = Some (c, [], res) \<Longrightarrow>
   feed_chunks c res chunks = Some (c', used, res') \<Longrightarrow>
   process_packets c (res @ concat chunks) = Some (c', used, res')"
proof (induction chunks arbitrary: c res used)
  case Nil
  then show ?case by simp
next
  case (Cons chunk chunks)
  obtain c1 used1 res1 used2 where
    one: "process_packets c (res @ chunk) = Some (c1, used1, res1)"
    and rest: "feed_chunks c1 res1 chunks = Some (c', used2, res')"
    and used: "used = used1 @ used2"
    using Cons.prems(2) by (auto split: Option.bind_split_asm)
  have "process_packets c1 (res1 @ concat chunks) = Some (c', used2, res')"
    using Cons.IH [OF process_packets_stable [OF one] rest] .
  then show ?case
    using process_packets_split [OF one, of "concat chunks"] used by simp
qed

lemma process_packets_empty: "process_packets c [] = Some (c, [], [])"
  by (simp add: process_packets_scan scan_unfold [of "[]"])

lemma process_packets_result:
  assumes "process_packets c buf = Some (c', used, res)"
  shows "used @ res = buf \<and> incomplete res \<and> (\<exists>ps. used = concat ps \<and> list_all is_packet ps)"
proof -
  obtain u where s: "scan buf c = Some (u, c')" and u1: "used = take u buf"
    and r1: "res = drop u buf"
    using assms by (auto simp: process_packets_scan)
  show ?thesis
    using scan_packets [OF s] scan_zero_incomplete [OF scan_stable [OF s]]
    by (simp add: u1 r1)
qed

text \<open>
  Chunks fed one at a time.  When no call reads past the end of the bytes it
  holds, the bytes returned, the bytes left and the connection, with its reply
  state, are those of one call on the whole stream.  Every call returns whole
  packets only and leaves bytes that are too few for a header or for the payload
  their header announces.
\<close>

lemma feed_chunks_agrees:
  assumes "feed_chunks c [] chunks = Some (c', used, res)"
  shows "process_packets c (concat chunks) = Some (c', used, res)
     \<and> used @ res = concat chunks \<and> incomplete res
     \<and> (\<exists>ps. used = concat ps \<and> list_all is_packet ps)
     \<and> (process_packets d buf = Some (d', u, r) \<longrightarrow>
          u @ r = buf \<and> incomplete r \<and> (\<exists>ps. u = concat ps \<and> list_all is_packet ps))"
proof -
  have whole: "process_packets c (concat chunks) = Some (c', used, res)"
    using feed_chunks_whole [OF process_packets_empty assms] by simp
  show ?thesis
    using whole process_packets_result [OF whole] process_packets_result [of d buf d' u r]
    by blast
qed

lemmas eval_defs =
  process_packets_def process_packets_loop.simps read_header_def deref_inc_def inc_def
  deref_def advance_def process_one_packet_def process_reply_start_def
  process_result_start_def process_ok_packet_def skip_encoded_int_def get_encoded_int_def
  set_reply_state_def le16_def awaiting_def fresh_backend_def fresh_reply_def
  MYSQL_HEADER_LEN_def GW_MYSQL_MAX_PACKET_LEN_def MYSQL_REPLY_OK_def
  MYSQL_REPLY_LOCAL_INFILE_def MYSQL_REPLY_ERR_def MYSQL_REPLY_EOF_def
  MXS_COM_BINLOG_DUMP_def MXS_COM_STATISTICS_def MXS_COM_FIELD_LIST_def
  MXS_COM_STMT_PREPARE_def SERVER_MORE_RESULTS_EXIST_def SERVER_SESSION_STATE_CHANGED_def
  Let_def

lemma feed_chunks_agrees_two_ok:
  "\<exists>c'. feed_chunks (awaiting 0x03 START) [] two_ok_chunks = Some (c', concat two_ok_chunks, [])
     \<and> process_packets (awaiting 0x03 START) (concat two_ok_chunks)
         = Some (c', concat two_ok_chunks, [])
     \<and> reply_state (m_reply c') = DONE"
proof -
  obtain c' where h: "feed_chunks (awaiting 0x03 START) [] two_ok_chunks
                      = Some (c', concat two_ok_chunks, [])"
    and s: "reply_state (m_reply c') = DONE"
    by (simp add: two_ok_chunks_def eval_defs)
  from feed_chunks_agrees [OF h] h s show ?thesis by blast
qed

section \<open>A packet with an empty payload\<close>

text \<open>
  Claim C6.  The claim has the chunks of a stream, fed one at a time, give the
  packets, the bytes left and the reply state of one call on the whole stream,
  for every stream and every split.  \<open>process_packets\<close> hands every whole packet
  to \<open>process_one_packet\<close>, whose first statement is \<open>uint8_t cmd = *it\<close>, with
  \<open>it\<close> at the first byte after the header; the only guard is
  \<open>mxb_assert(it != buffer.end())\<close>.  For a packet with an empty payload that is
  the last one in the buffer, \<open>it\<close> is the end of the buffer and the byte is read
  past it, whatever the connection holds and whatever the sequence byte \<open>s\<close>,
  as long as \<open>m_skip_next\<close> is clear.  So for the stream
  \<open>00 00 00 01 07 00 00 02 00 00 00 02 00 00 00\<close> cut after its fourth byte the
  first call reads past the end of its buffer, while one call on the fifteen
  bytes reads \<open>07\<close>, the first byte of the next header, as the first byte of
  the empty packet, takes it for a column count and ends in state
  \<open>RSET_COLDEF\<close> with six column definitions awaited and every byte returned.
\<close>

theorem empty_payload_reads_past_end:
  "process_packets (c\<lparr>m_skip_next := False\<rparr>) [0, 0, 0, s] = None
   \<and> feed_chunks (awaiting 0x03 START) [] empty_packet_chunks = None
   \<and> map_option (\<lambda>(c, used, res). (reply_state (m_reply c), m_num_coldefs c, used, res))
       (process_packets (awaiting 0x03 START) (concat empty_packet_chunks))
     = Some (RSET_COLDEF, 6, concat empty_packet_chunks, [])"
  by (simp add: empty_packet_chunks_def eval_defs)

end
